theory Spec2Isabelle
  imports Complex_Main
begin

section \<open>The voice agent page: state of the call orchestrator\<close>

text \<open>
  The component \<^verbatim>\<open>VoiceAgent\<close> keeps its state in React state cells
  (\<^verbatim>\<open>useState\<close>) and in ref cells (\<^verbatim>\<open>useRef\<close>). Both become fields of
  one record, named as in the source. JavaScript runs every callback to completion, so
  each callback of the source is one function from state to state; an \<^verbatim>\<open>await\<close>
  splits an async function into the part before it and the part after it.

  A state setter is modelled together with the re-render it causes: the field changes
  and the effect that mirrors it into its ref (\<^verbatim>\<open>useEffect(() => { xRef.current = x }, [x])\<close>)
  runs at once. That effect runs only when the value changed.
\<close>

datatype tc_status = Pending | Running | Completed | Failed

record ToolCallData =
  tc_id :: string
  tc_name :: string
  tc_parameters :: "string option"
  tc_result :: "string option"
  tc_status :: tc_status

datatype msg_role = User | Assistant

record message =
  msg_role :: msg_role
  msg_content :: string
  msg_timestamp :: int

text \<open>A \<^verbatim>\<open>MediaRecorder\<close> is recording or inactive (the source never pauses one).\<close>

datatype recorder_state = RecRecording | RecInactive

text \<open>
  A pending timeout is the auto-restart callback of \<^verbatim>\<open>scheduleAutoRestart\<close> or the
  safety cutoff of \<^verbatim>\<open>startListening\<close>, whose closure holds the recorder it was
  created for.
\<close>

datatype timer_cb = AutoRestartCb | SafetyCb nat

datatype worklet_msg = AudioMsg "rat list" | ClearMsg | StreamCompleteMsg

record agent =
  isCallActive :: bool
  isListening :: bool
  isSpeaking :: bool
  isProcessing :: bool
  isMuted :: bool
  sessionId :: "nat option"
  messages :: "message list"
  currentTranscript :: string
  toolCalls :: "ToolCallData list"
  useBeyRef :: bool
  autoRestartTimeoutRef :: "nat option"
  silenceTimeoutRef :: "nat option"
  isRecordingRef :: bool
  isMicPausedRef :: bool
  isCallActiveRef :: bool
  isProcessingRef :: bool
  isSpeakingRef :: bool
  streamRef :: "nat option"
  analyserRef :: bool
  mediaRecorderRef :: "nat option"
  chunksRef :: "nat list"
  workletRef :: bool
  timers :: "(nat \<times> nat \<times> timer_cb) list"
  nextTimer :: nat
  recorders :: "recorder_state list"
  workletPort :: "worklet_msg list"
  awaitingMic :: nat
  inflight :: "nat list"
  toasts :: "string list"
  consoleErrors :: "string list"

text \<open>
  Fields that are not cells of the source stand for the platform: \<open>timers\<close> is the
  table of pending timeouts (handle, delay, callback), \<open>recorders\<close> every
  \<^verbatim>\<open>MediaRecorder\<close> created so far (a recorder is named by its index),
  \<open>workletPort\<close> the messages posted to the playback worklet, \<open>awaitingMic\<close> the
  number of \<^verbatim>\<open>startListening\<close> calls suspended in \<^verbatim>\<open>await getUserMedia\<close>,
  \<open>inflight\<close> the audio clips (by size) of the turns that \<^verbatim>\<open>sendVoiceMessage\<close> has
  started, \<open>toasts\<close> and \<open>consoleErrors\<close> what was shown to the user and what was
  logged. An audio chunk is its size in bytes.
\<close>

text \<open>The state of the mounted component (lines 40 to 88): no call, nothing held.\<close>

definition mounted :: agent where
  "mounted = \<lparr> isCallActive = False, isListening = False, isSpeaking = False,
     isProcessing = False, isMuted = False, sessionId = None, messages = [],
     currentTranscript = [], toolCalls = [], useBeyRef = True,
     autoRestartTimeoutRef = None, silenceTimeoutRef = None, isRecordingRef = False,
     isMicPausedRef = False, isCallActiveRef = False, isProcessingRef = False,
     isSpeakingRef = False, streamRef = None, analyserRef = False,
     mediaRecorderRef = None, chunksRef = [], workletRef = False, timers = [],
     nextTimer = 0, recorders = [], workletPort = [], awaitingMic = 0, inflight = [],
     toasts = [], consoleErrors = [] \<rparr>"

text \<open>
  The state after \<^verbatim>\<open>startCall\<close> succeeded with the avatar transport in use
  (\<^verbatim>\<open>useBey\<close> is true and never set): the call is active, the session is known, the
  playback worklet exists, and the microphone has not been asked for (lines 530 to 598).
\<close>

definition inCall :: "nat \<Rightarrow> agent" where
  "inCall sid = mounted \<lparr> isCallActive := True, isCallActiveRef := True,
     sessionId := Some sid, workletRef := True \<rparr>"

subsection \<open>State setters\<close>

definition setIsListening :: "bool \<Rightarrow> agent \<Rightarrow> agent" where
  "setIsListening v s = s \<lparr> isListening := v \<rparr>"

definition setIsSpeaking :: "bool \<Rightarrow> agent \<Rightarrow> agent" where
  "setIsSpeaking v s = s \<lparr> isSpeaking := v, isSpeakingRef := v \<rparr>"

definition setIsProcessing :: "bool \<Rightarrow> agent \<Rightarrow> agent" where
  "setIsProcessing v s = s \<lparr> isProcessing := v, isProcessingRef := v \<rparr>"

definition setIsCallActive :: "bool \<Rightarrow> agent \<Rightarrow> agent" where
  "setIsCallActive v s =
     (if v = isCallActive s then s else s \<lparr> isCallActive := v, isCallActiveRef := v \<rparr>)"

text \<open>\<^verbatim>\<open>!sessionId\<close> on a \<^verbatim>\<open>number | null\<close>: null and 0 are falsy.\<close>

definition truthy :: "nat option \<Rightarrow> bool" where
  "truthy x = (case x of None \<Rightarrow> False | Some n \<Rightarrow> n \<noteq> 0)"

subsection \<open>Timeouts\<close>

text \<open>
  \<^verbatim>\<open>setTimeout\<close> returns a fresh positive handle, so the truthiness test of a
  handle ref is its null test. \<^verbatim>\<open>clearTimeout\<close> removes the handle from the table.
\<close>

definition clearTimeout :: "nat \<Rightarrow> agent \<Rightarrow> agent" where
  "clearTimeout h s = s \<lparr> timers := filter (\<lambda>t. fst t \<noteq> h) (timers s) \<rparr>"

definition setTimeout :: "timer_cb \<Rightarrow> nat \<Rightarrow> agent \<Rightarrow> nat \<times> agent" where
  "setTimeout cb delay s =
     (let h = Suc (nextTimer s)
      in (h, s \<lparr> timers := timers s @ [(h, delay, cb)], nextTimer := h \<rparr>))"

text \<open>\<^verbatim>\<open>scheduleAutoRestart\<close> (lines 95 to 116), up to the creation of the timer.\<close>

definition scheduleAutoRestart :: "nat \<Rightarrow> agent \<Rightarrow> agent" where
  "scheduleAutoRestart delay s =
     (let s1 = (case autoRestartTimeoutRef s of
                  Some h \<Rightarrow> (clearTimeout h s) \<lparr> autoRestartTimeoutRef := None \<rparr>
                | None \<Rightarrow> s);
          (h, s2) = setTimeout AutoRestartCb delay s1
      in s2 \<lparr> autoRestartTimeoutRef := Some h \<rparr>)"

subsection \<open>Capture\<close>

text \<open>
  \<^verbatim>\<open>startListening\<close> from the creation of the recorder on (lines 455 to 491): a new
  recorder on the held stream is started and becomes the current one, the chunk buffer
  is emptied, the recording flag is set, a detector loop is started (its ticks are
  modelled in the section on voice activity detection; starting it changes nothing
  here) and the safety cutoff is armed. The previous cutoff timer is not cleared; its
  handle is overwritten.
\<close>

definition startRecorder :: "agent \<Rightarrow> agent" where
  "startRecorder s =
     (let r = length (recorders s);
          s1 = s \<lparr> chunksRef := [], recorders := recorders s @ [RecRecording],
                   mediaRecorderRef := Some r, isRecordingRef := True \<rparr>;
          s2 = setIsListening True s1;
          (h, s3) = setTimeout (SafetyCb r) 30000 s2
      in s3 \<lparr> silenceTimeoutRef := Some h \<rparr>)"

text \<open>
  \<^verbatim>\<open>startListening\<close> up to its first \<^verbatim>\<open>await\<close> (lines 436 to 442). With a
  stream held there is no \<^verbatim>\<open>await\<close> and the call runs to its end. Without one the
  call is suspended in \<^verbatim>\<open>getUserMedia\<close>; nothing has been written at that point.
\<close>

definition startListening :: "agent \<Rightarrow> agent" where
  "startListening s =
     (if isRecordingRef s \<or> isProcessing s \<or> isSpeaking s then s
      else case streamRef s of
             None \<Rightarrow> s \<lparr> awaitingMic := Suc (awaitingMic s) \<rparr>
           | Some st \<Rightarrow> startRecorder s)"

text \<open>
  A suspended call resumes when \<^verbatim>\<open>getUserMedia\<close> resolves with a stream (lines 442
  to 453, then the recorder) or rejects (the \<^verbatim>\<open>catch\<close>, lines 493 to 500).
\<close>

definition micGranted :: "nat \<Rightarrow> agent \<Rightarrow> agent" where
  "micGranted stream s =
     (if awaitingMic s = 0 then s
      else startRecorder (s \<lparr> awaitingMic := awaitingMic s - 1,
                               streamRef := Some stream, analyserRef := True \<rparr>))"

definition micDenied :: "agent \<Rightarrow> agent" where
  "micDenied s =
     (if awaitingMic s = 0 then s
      else s \<lparr> awaitingMic := awaitingMic s - 1,
               toasts := toasts s @ [''Microphone Error''] \<rparr>)"

text \<open>\<^verbatim>\<open>recorder.stop()\<close> on a recorder that is recording.\<close>

definition stopRecorder :: "nat \<Rightarrow> agent \<Rightarrow> agent" where
  "stopRecorder r s = s \<lparr> recorders := (recorders s)[r := RecInactive] \<rparr>"

definition isRecording :: "nat \<Rightarrow> agent \<Rightarrow> bool" where
  "isRecording r s = (r < length (recorders s) \<and> recorders s ! r = RecRecording)"

text \<open>\<^verbatim>\<open>stopListening\<close> (lines 509 to 521).\<close>

definition stopListening :: "agent \<Rightarrow> agent" where
  "stopListening s =
     (let s1 = (case silenceTimeoutRef s of
                  Some h \<Rightarrow> (clearTimeout h s) \<lparr> silenceTimeoutRef := None \<rparr>
                | None \<Rightarrow> s);
          s2 = (case mediaRecorderRef s1 of
                  Some r \<Rightarrow> if isRecording r s1 then stopRecorder r s1 else s1
                | None \<Rightarrow> s1)
      in setIsListening False (s2 \<lparr> isRecordingRef := False \<rparr>))"

text \<open>The safety cutoff (lines 485 to 491); \<open>r\<close> is the recorder of its closure.\<close>

definition safetyCallback :: "nat \<Rightarrow> agent \<Rightarrow> agent" where
  "safetyCallback r s =
     (if isRecording r s
      then setIsListening False ((stopRecorder r s) \<lparr> isRecordingRef := False \<rparr>)
      else s)"

text \<open>The callback of the auto-restart timer (lines 102 to 115).\<close>

definition restartGuards :: "agent \<Rightarrow> bool" where
  "restartGuards s =
     (isCallActiveRef s \<and> \<not> isRecordingRef s \<and> \<not> isMicPausedRef s \<and>
      \<not> isProcessingRef s \<and> \<not> isSpeakingRef s)"

definition autoRestartCallback :: "agent \<Rightarrow> agent" where
  "autoRestartCallback s =
     (let s1 = s \<lparr> autoRestartTimeoutRef := None \<rparr>
      in if restartGuards s1 then startListening s1 else s1)"

text \<open>
  The delay of the pending timeout \<open>h\<close> elapses: it leaves the table and its callback
  runs. A handle that is not pending (cleared, or fired before) does nothing.
\<close>

definition fireTimer :: "nat \<Rightarrow> agent \<Rightarrow> agent" where
  "fireTimer h s =
     (case map_of (timers s) h of
        None \<Rightarrow> s
      | Some (delay, cb) \<Rightarrow>
          (let s1 = clearTimeout h s
           in case cb of
                AutoRestartCb \<Rightarrow> autoRestartCallback s1
              | SafetyCb r \<Rightarrow> safetyCallback r s1))"

subsection \<open>Playback\<close>

text \<open>What the callbacks of the source can throw.\<close>

datatype js_exn = SyntaxError | TypeError | RangeError | InvalidCharacterError | Error string

text \<open>
  \<^verbatim>\<open>decodePCM16ToFloat32\<close> (lines 368 to 380). A base64 payload is given by the
  bytes \<^verbatim>\<open>atob\<close> decodes it to, or by \<open>None\<close> when \<^verbatim>\<open>atob\<close> rejects it
  (it throws). An \<^verbatim>\<open>Int16Array\<close> over a buffer of odd length throws a
  \<^verbatim>\<open>RangeError\<close>; otherwise each pair of bytes, low byte first, is one signed
  sample, and the sample over 32768 is exact in single precision.
\<close>

fun pcm16 :: "nat list \<Rightarrow> int list" where
  "pcm16 (lo # hi # bytes) =
     (let u = int lo + 256 * int hi
      in (if 32768 \<le> u then u - 65536 else u) # pcm16 bytes)"
| "pcm16 bytes = []"

definition decodePCM16ToFloat32 :: "nat list option \<Rightarrow> js_exn + rat list" where
  "decodePCM16ToFloat32 base64Audio =
     (case base64Audio of
        None \<Rightarrow> Inl InvalidCharacterError
      | Some bytes \<Rightarrow>
          if odd (length bytes) then Inl RangeError
          else Inr (map (\<lambda>v. of_int v / 32768) (pcm16 bytes)))"

text \<open>
  \<^verbatim>\<open>playAudio\<close>, \<^verbatim>\<open>clearAudio\<close>, \<^verbatim>\<open>signalAudioComplete\<close> (lines 382 to 396)
  and the worklet's \<^verbatim>\<open>ended\<close> message (lines 351 to 357). \<^verbatim>\<open>playAudio\<close>
  decodes before it posts and before it marks speaking, so a payload that does not
  decode throws with nothing written.
\<close>

definition postMessage :: "worklet_msg \<Rightarrow> agent \<Rightarrow> agent" where
  "postMessage m s = (if workletRef s then s \<lparr> workletPort := workletPort s @ [m] \<rparr> else s)"

definition playAudio :: "nat list option \<Rightarrow> agent \<Rightarrow> js_exn + agent" where
  "playAudio base64Audio s =
     (if \<not> workletRef s \<or> isMuted s then Inr s
      else case decodePCM16ToFloat32 base64Audio of
             Inl e \<Rightarrow> Inl e
           | Inr samples \<Rightarrow> Inr (setIsSpeaking True (postMessage (AudioMsg samples) s)))"

text \<open>The state after a call of \<^verbatim>\<open>playAudio\<close>, thrown or not.\<close>

definition afterPlayAudio :: "nat list option \<Rightarrow> agent \<Rightarrow> agent" where
  "afterPlayAudio base64Audio s =
     (case playAudio base64Audio s of Inl e \<Rightarrow> s | Inr s' \<Rightarrow> s')"

definition clearAudio :: "agent \<Rightarrow> agent" where
  "clearAudio s = setIsSpeaking False (postMessage ClearMsg s)"

definition signalAudioComplete :: "agent \<Rightarrow> agent" where
  "signalAudioComplete s = postMessage StreamCompleteMsg s"

definition workletEnded :: "agent \<Rightarrow> agent" where
  "workletEnded s = scheduleAutoRestart 300 (setIsSpeaking False s)"

subsection \<open>Ending the call\<close>

text \<open>
  \<^verbatim>\<open>endCall\<close> (lines 609 to 694) up to its first \<^verbatim>\<open>await\<close>, the request for the
  summary: \<open>endCall_begin\<close>. What follows the answer is \<open>endCall_settle\<close>; \<open>ok\<close>
  says whether the request succeeded.
\<close>

definition endCall_begin :: "agent \<Rightarrow> agent" where
  "endCall_begin s =
     (if \<not> truthy (sessionId s) then s
      else
        let s1 = s \<lparr> isCallActiveRef := False \<rparr>;
            s2 = (case autoRestartTimeoutRef s1 of
                    Some h \<Rightarrow> (clearTimeout h s1) \<lparr> autoRestartTimeoutRef := None \<rparr>
                  | None \<Rightarrow> s1);
            s3 = setIsProcessing True s2;
            s4 = clearAudio s3;
            s5 = stopListening s4
        in s5 \<lparr> streamRef := None, analyserRef := False \<rparr>)"

definition endCall_settle :: "bool \<Rightarrow> agent \<Rightarrow> agent" where
  "endCall_settle ok s =
     setIsProcessing False
       (if ok then setIsSpeaking False (setIsListening False (setIsCallActive False s))
        else s \<lparr> toasts := toasts s @ [''Failed to generate call summary''] \<rparr>)"

definition endCall :: "bool \<Rightarrow> agent \<Rightarrow> agent" where
  "endCall ok s = (if \<not> truthy (sessionId s) then s else endCall_settle ok (endCall_begin s))"

subsection \<open>Sending a turn\<close>

text \<open>
  \<^verbatim>\<open>sendVoiceMessage\<close> (lines 696 to 701) up to its first \<^verbatim>\<open>await\<close>: the clip is
  now the payload of a turn in flight.
\<close>

definition sendVoiceMessage :: "nat \<Rightarrow> agent \<Rightarrow> agent" where
  "sendVoiceMessage audioBlob s =
     (if \<not> truthy (sessionId s) then s
      else (setIsProcessing True s) \<lparr> currentTranscript := [],
             inflight := inflight s @ [audioBlob] \<rparr>)"

text \<open>
  The recorder's \<^verbatim>\<open>onstop\<close> handler (lines 465 to 474). The size of a blob built
  from chunks is the sum of their sizes.
\<close>

definition onstop :: "agent \<Rightarrow> agent" where
  "onstop s =
     (let audioBlob = sum_list (chunksRef s);
          s1 = s \<lparr> chunksRef := [] \<rparr>
      in if audioBlob > 1000 then sendVoiceMessage audioBlob s1
         else scheduleAutoRestart 100 s1)"

definition ondataavailable :: "nat \<Rightarrow> agent \<Rightarrow> agent" where
  "ondataavailable size_e s = (if size_e > 0 then s \<lparr> chunksRef := chunksRef s @ [size_e] \<rparr> else s)"

text \<open>\<^verbatim>\<open>toggleMic\<close> (lines 828 to 836).\<close>

definition toggleMic :: "agent \<Rightarrow> agent" where
  "toggleMic s =
     (if isListening s then stopListening (s \<lparr> isMicPausedRef := True \<rparr>)
      else startListening (s \<lparr> isMicPausedRef := False \<rparr>))"

text \<open>\<^verbatim>\<open>toggleMute\<close> (lines 838 to 843): the output is muted or unmuted.\<close>

definition toggleMute :: "agent \<Rightarrow> agent" where
  "toggleMute s =
     (let s1 = s \<lparr> isMuted := \<not> isMuted s \<rparr>
      in if \<not> isMuted s then clearAudio s1 else s1)"


section \<open>The streamed response consumer\<close>

text \<open>
  The body of \<^verbatim>\<open>sendVoiceMessage\<close> after the request (lines 727 to 819). A line
  of the stream is taken after the prefix test and \<^verbatim>\<open>JSON.parse\<close>: it does not
  start with \<^verbatim>\<open>data: \<close>, or it does not parse (a \<^verbatim>\<open>SyntaxError\<close>), or it
  parses to \<^verbatim>\<open>null\<close> (reading its type is a \<^verbatim>\<open>TypeError\<close>), or it is an
  event. \<open>OtherEvent\<close> is an event with a type that no case of the switch names.
\<close>

datatype sse_event =
    UserTranscript string
  | ToolCallStart string string "string option"
  | ToolCallEnd string "string option"
  | Transcript string
  | Audio "nat list option"
  | Done bool
  | ErrorEvent string
  | OtherEvent

datatype sse_line = NoPrefix | BadJson | JsonNull | Parsed sse_event

text \<open>
  The switch (lines 741 to 802). The turn's own variable \<^verbatim>\<open>assistantTranscript\<close>
  is passed beside the state. \<open>Inl\<close> is a \<^verbatim>\<open>throw\<close>. \<open>ok\<close> is the outcome of
  the summary request of an awaited \<^verbatim>\<open>endCall\<close>, \<open>now\<close> is \<^verbatim>\<open>Date.now()\<close>.
\<close>

fun handleEvent :: "bool \<Rightarrow> int \<Rightarrow> sse_event \<Rightarrow> string \<times> agent \<Rightarrow> js_exn + string \<times> agent" where
  "handleEvent ok now (UserTranscript d) (tr, s) =
     Inr (tr, s \<lparr> messages := messages s @
            [\<lparr> msg_role = User, msg_content = d, msg_timestamp = now \<rparr>] \<rparr>)"
| "handleEvent ok now (ToolCallStart i n p) (tr, s) =
     Inr (tr, s \<lparr> toolCalls := toolCalls s @
            [\<lparr> tc_id = i, tc_name = n, tc_parameters = p, tc_result = None,
               tc_status = Running \<rparr>] \<rparr>)"
| "handleEvent ok now (ToolCallEnd i r) (tr, s) =
     Inr (tr, s \<lparr> toolCalls :=
            map (\<lambda>tc. if tc_id tc = i then tc \<lparr> tc_result := r, tc_status := Completed \<rparr>
                       else tc) (toolCalls s) \<rparr>)"
| "handleEvent ok now (Transcript d) (tr, s) =
     Inr (tr @ d, s \<lparr> currentTranscript := tr @ d \<rparr>)"
| "handleEvent ok now (Audio d) (tr, s) =
     (if \<not> useBeyRef s
      then (case playAudio d s of Inl e \<Rightarrow> Inl e | Inr s' \<Rightarrow> Inr (tr, s'))
      else Inr (tr, s))"
| "handleEvent ok now (Done e) (tr, s) =
     (let s1 = signalAudioComplete s;
          s2 = (if tr \<noteq> [] then s1 \<lparr> messages := messages s1 @
                  [\<lparr> msg_role = Assistant, msg_content = tr, msg_timestamp = now \<rparr>] \<rparr>
                else s1);
          s3 = s2 \<lparr> currentTranscript := [] \<rparr>
      in Inr (tr, if e then endCall ok s3 else scheduleAutoRestart 500 s3))"
| "handleEvent ok now (ErrorEvent e) (tr, s) = Inl (Error e)"
| "handleEvent ok now OtherEvent (tr, s) = Inr (tr, s)"

text \<open>
  One line of the \<^verbatim>\<open>for\<close> loop (lines 735 to 808): the prefix test, then the
  \<^verbatim>\<open>try\<close> around parse and switch, then its \<^verbatim>\<open>catch\<close>, which logs whatever
  is not a \<^verbatim>\<open>SyntaxError\<close> and goes on to the next line.
\<close>

definition tryLine :: "bool \<Rightarrow> int \<Rightarrow> sse_line \<Rightarrow> string \<times> agent \<Rightarrow> js_exn + string \<times> agent" where
  "tryLine ok now line st =
     (case line of
        NoPrefix \<Rightarrow> Inr st
      | BadJson \<Rightarrow> Inl SyntaxError
      | JsonNull \<Rightarrow> Inl TypeError
      | Parsed ev \<Rightarrow> handleEvent ok now ev st)"

definition describe :: "js_exn \<Rightarrow> string" where
  "describe e =
     (case e of
        SyntaxError \<Rightarrow> ''SyntaxError''
      | TypeError \<Rightarrow> ''TypeError''
      | RangeError \<Rightarrow> ''RangeError''
      | InvalidCharacterError \<Rightarrow> ''InvalidCharacterError''
      | Error m \<Rightarrow> m)"

definition handleLine :: "bool \<Rightarrow> int \<Rightarrow> sse_line \<Rightarrow> string \<times> agent \<Rightarrow> string \<times> agent" where
  "handleLine ok now line st =
     (case tryLine ok now line st of
        Inr st' \<Rightarrow> st'
      | Inl SyntaxError \<Rightarrow> st
      | Inl e \<Rightarrow> (fst st, (snd st) \<lparr> consoleErrors := consoleErrors (snd st) @ [describe e] \<rparr>))"

definition handleLines :: "bool \<Rightarrow> int \<Rightarrow> sse_line list \<Rightarrow> string \<times> agent \<Rightarrow> string \<times> agent" where
  "handleLines ok now ls st = fold (handleLine ok now) ls st"

text \<open>
  The turn from the first line of the stream to its end (lines 725 to 819).
  \<open>streamFails\<close> says that reading the stream rejected after these lines: the outer
  \<^verbatim>\<open>catch\<close> reports it to the user. The \<^verbatim>\<open>finally\<close> clears the processing state.
\<close>

definition consumeStream :: "bool \<Rightarrow> int \<Rightarrow> sse_line list \<Rightarrow> bool \<Rightarrow> agent \<Rightarrow> agent" where
  "consumeStream ok now ls streamFails s =
     (let s1 = snd (handleLines ok now ls ([], s));
          s2 = (if streamFails
                then s1 \<lparr> toasts := toasts s1 @ [''Failed to process your message''] \<rparr>
                else s1)
      in setIsProcessing False s2)"

section \<open>Voice activity detection\<close>

text \<open>
  \<^verbatim>\<open>startVoiceDetection\<close> (lines 399 to 433). The closure variables of one detector
  loop are a record; \<^verbatim>\<open>checkAudioLevel\<close> is one tick of it, with the time and the
  frequency data it reads. The average is the sum of the bins over their number; for
  no bins JavaScript gives NaN and HOL gives 0, and neither is above the threshold.
\<close>

record vad =
  lastSoundTime :: int
  hasSpoken :: bool

datatype vad_outcome = VadExit | VadSilenceStop | VadRescheduled

definition SILENCE_THRESHOLD :: rat where
  "SILENCE_THRESHOLD = 15"

definition SILENCE_DURATION :: int where
  "SILENCE_DURATION = 1500"

definition average :: "nat list \<Rightarrow> rat" where
  "average dataArray = of_nat (sum_list dataArray) / of_nat (length dataArray)"

definition startVoiceDetection :: "int \<Rightarrow> agent \<Rightarrow> vad option" where
  "startVoiceDetection now s =
     (if \<not> analyserRef s then None
      else Some \<lparr> lastSoundTime = now, hasSpoken = False \<rparr>)"

text \<open>The stop of the silence branch (lines 421 to 425): it stops the current recorder.\<close>

definition silenceStop :: "agent \<Rightarrow> agent" where
  "silenceStop s =
     (case mediaRecorderRef s of
        Some r \<Rightarrow> if isRecording r s
                  then setIsListening False ((stopRecorder r s) \<lparr> isRecordingRef := False \<rparr>)
                  else s
      | None \<Rightarrow> s)"

definition checkAudioLevel :: "int \<Rightarrow> nat list \<Rightarrow> vad \<times> agent \<Rightarrow> vad_outcome \<times> vad \<times> agent" where
  "checkAudioLevel now dataArray st =
     (let v = fst st; s = snd st
      in if \<not> isRecordingRef s then (VadExit, v, s)
         else if average dataArray > SILENCE_THRESHOLD
           then (VadRescheduled, v \<lparr> lastSoundTime := now, hasSpoken := True \<rparr>, s)
         else if hasSpoken v \<and> now - lastSoundTime v > SILENCE_DURATION
           then (VadSilenceStop, v, silenceStop s)
         else (VadRescheduled, v, s))"

text \<open>
  The loop reschedules itself with \<^verbatim>\<open>requestAnimationFrame\<close>. A tick is what
  happened to the state since the previous tick (any function of the state: the other
  callbacks run in between), the time and the data read. The loop ends when a tick
  does not reschedule; with no tick left it is still scheduled.
\<close>

fun vadLoop :: "((agent \<Rightarrow> agent) \<times> int \<times> nat list) list \<Rightarrow> vad \<times> agent \<Rightarrow> vad_outcome \<times> vad \<times> agent" where
  "vadLoop [] (v, s) = (VadRescheduled, v, s)"
| "vadLoop ((env, now, dataArray) # ticks) (v, s) =
     (case checkAudioLevel now dataArray (v, env s) of
        (VadRescheduled, v', s') \<Rightarrow> vadLoop ticks (v', s')
      | (VadExit, v', s') \<Rightarrow> (VadExit, v', s')
      | (VadSilenceStop, v', s') \<Rightarrow> (VadSilenceStop, v', s'))"

section \<open>What can happen during a call\<close>

text \<open>
  The callbacks above as events, for statements about every run. \<open>EvLine\<close> is a line
  of a turn in flight with the turn's transcript so far; \<open>EvTurnEnd\<close> is the end of a
  turn's stream; \<open>EvEffectCleanup\<close> and \<open>EvSchedule\<close> are the cleanup and the body of
  the auto-restart effect (lines 860 to 870), which run after a render.
\<close>

datatype event =
    EvSchedule nat
  | EvEffectCleanup
  | EvFire nat
  | EvStartListening
  | EvMicGranted nat
  | EvMicDenied
  | EvStopListening
  | EvToggleMic
  | EvToggleMute
  | EvVadTick int "nat list" vad
  | EvData nat
  | EvOnStop
  | EvPlayAudio "nat list option"
  | EvClearAudio
  | EvWorkletEnded
  | EvLine bool int string sse_line
  | EvTurnEnd bool
  | EvEndCallBegin
  | EvEndCallSettle bool

definition effectCleanup :: "agent \<Rightarrow> agent" where
  "effectCleanup s =
     (case autoRestartTimeoutRef s of
        Some h \<Rightarrow> (clearTimeout h s) \<lparr> autoRestartTimeoutRef := None \<rparr>
      | None \<Rightarrow> s)"

fun step :: "event \<Rightarrow> agent \<Rightarrow> agent" where
  "step (EvSchedule d) s = scheduleAutoRestart d s"
| "step EvEffectCleanup s = effectCleanup s"
| "step (EvFire h) s = fireTimer h s"
| "step EvStartListening s = startListening s"
| "step (EvMicGranted st) s = micGranted st s"
| "step EvMicDenied s = micDenied s"
| "step EvStopListening s = stopListening s"
| "step EvToggleMic s = toggleMic s"
| "step EvToggleMute s = toggleMute s"
| "step (EvVadTick now d v) s = snd (snd (checkAudioLevel now d (v, s)))"
| "step (EvData n) s = ondataavailable n s"
| "step EvOnStop s = onstop s"
| "step (EvPlayAudio d) s = afterPlayAudio d s"
| "step EvClearAudio s = clearAudio s"
| "step EvWorkletEnded s = workletEnded s"
| "step (EvLine ok now tr l) s = snd (handleLine ok now l (tr, s))"
| "step (EvTurnEnd fails) s =
     setIsProcessing False
       (if fails then s \<lparr> toasts := toasts s @ [''Failed to process your message''] \<rparr> else s)"
| "step EvEndCallBegin s = endCall_begin s"
| "step (EvEndCallSettle ok) s = endCall_settle ok s"

definition run :: "event list \<Rightarrow> agent \<Rightarrow> agent" where
  "run es s = fold step es s"


section \<open>Signal extractors\<close>

text \<open>
  A text is a list of code units; the model covers the units below 256, which are
  Isabelle's characters. The classes are those of JavaScript regular expressions
  without the \<^verbatim>\<open>u\<close> flag: \<^verbatim>\<open>\d\<close> is 0 to 9, \<^verbatim>\<open>\w\<close> is a letter of
  A to Z or a to z, a digit or the underscore, \<^verbatim>\<open>\s\<close> below 256 is tab, line feed,
  vertical tab, form feed, carriage return, space and the no-break space.
\<close>

definition code :: "char \<Rightarrow> nat" where
  "code c = of_char c"

definition is_digit :: "char \<Rightarrow> bool" where
  "is_digit c = (48 \<le> code c \<and> code c \<le> 57)"

definition is_letter :: "char \<Rightarrow> bool" where
  "is_letter c = ((65 \<le> code c \<and> code c \<le> 90) \<or> (97 \<le> code c \<and> code c \<le> 122))"

definition is_word_char :: "char \<Rightarrow> bool" where
  "is_word_char c = (is_letter c \<or> is_digit c \<or> code c = 95)"

definition is_space :: "char \<Rightarrow> bool" where
  "is_space c = ((9 \<le> code c \<and> code c \<le> 13) \<or> code c = 32 \<or> code c = 160)"

text \<open>
  \<^verbatim>\<open>toLowerCase\<close> on a unit below 256: A to Z and the capital letters of Latin-1
  (192 to 222 but the multiplication sign 215) move up by 32.
  \<^verbatim>\<open>toUpperCase\<close> is applied by the source to a captured letter only.
\<close>

definition toLowerChar :: "char \<Rightarrow> char" where
  "toLowerChar c =
     (if (65 \<le> code c \<and> code c \<le> 90) \<or> (192 \<le> code c \<and> code c \<le> 222 \<and> code c \<noteq> 215)
      then char_of (code c + 32) else c)"

definition toUpperChar :: "char \<Rightarrow> char" where
  "toUpperChar c = (if 97 \<le> code c \<and> code c \<le> 122 then char_of (code c - 32) else c)"

definition toLowerCase :: "string \<Rightarrow> string" where
  "toLowerCase s = map toLowerChar s"

text \<open>\<^verbatim>\<open>s.slice(-n)\<close>: the last \<open>n\<close> units, all of \<open>s\<close> when it is shorter.\<close>

definition sliceLast :: "nat \<Rightarrow> string \<Rightarrow> string" where
  "sliceLast n s = drop (length s - n) s"

subsection \<open>extractPhoneNumber\<close>

text \<open>
  \<^verbatim>\<open>Object.entries(numberWords)\<close> in insertion order (lines 121 to 125).
\<close>

definition numberWords :: "(string \<times> string) list" where
  "numberWords =
     [(''zero'', ''0''), (''one'', ''1''), (''two'', ''2''), (''three'', ''3''),
      (''four'', ''4''), (''five'', ''5''), (''six'', ''6''), (''seven'', ''7''),
      (''eight'', ''8''), (''nine'', ''9''), (''oh'', ''0''), (''o'', ''0'')]"

text \<open>
  \<^verbatim>\<open>\b\<close> holds between two positions when exactly one side is a word character;
  the outside of the string counts as not a word character.
\<close>

definition wordBoundary :: "bool \<Rightarrow> bool \<Rightarrow> bool" where
  "wordBoundary left_word right_word = (left_word \<noteq> right_word)"

definition startsWord :: "string \<Rightarrow> bool" where
  "startsWord s = (case s of [] \<Rightarrow> False | c # cs \<Rightarrow> is_word_char c)"

text \<open>
  \<^verbatim>\<open>/\bword\b/\<close> matches at the head of \<open>s\<close>; \<open>prev\<close> says whether the unit
  before the head is a word character.
\<close>

definition wordAt :: "string \<Rightarrow> bool \<Rightarrow> string \<Rightarrow> bool" where
  "wordAt w prev s =
     (w \<noteq> [] \<and> wordBoundary prev (startsWord s) \<and> take (length w) s = w \<and>
      wordBoundary (is_word_char (last w)) (startsWord (drop (length w) s)))"

text \<open>
  \<^verbatim>\<open>s.replace(new RegExp(`\\b${word}\\b`, 'g'), digit)\<close>: the matches are replaced
  from left to right, the search going on after each match.
\<close>

fun replaceWord :: "string \<Rightarrow> string \<Rightarrow> bool \<Rightarrow> string \<Rightarrow> string" where
  "replaceWord w d prev [] = []"
| "replaceWord w d prev (c # cs) =
     (if wordAt w prev (c # cs)
      then d @ replaceWord w d (is_word_char (last w)) (drop (length w - 1) cs)
      else c # replaceWord w d (is_word_char c) cs)"

definition normalizeWords :: "string \<Rightarrow> string" where
  "normalizeWords text =
     fold (\<lambda>entry normalized. replaceWord (fst entry) (snd entry) False normalized)
       numberWords (toLowerCase text)"

text \<open>\<^verbatim>\<open>replace(/[\s\-\(\)\.\,]/g, '')\<close>.\<close>

definition is_separator :: "char \<Rightarrow> bool" where
  "is_separator c = (is_space c \<or> c \<in> set ''-().,'')"

definition stripSeparators :: "string \<Rightarrow> string" where
  "stripSeparators s = filter (\<lambda>c. \<not> is_separator c) s"

text \<open>
  \<^verbatim>\<open>s.match(/\d{10,}/)\<close>: the leftmost start at which ten digits follow, and from
  there all the digits (the quantifier is greedy).
\<close>

fun matchDigits10 :: "string \<Rightarrow> string option" where
  "matchDigits10 [] = None"
| "matchDigits10 (c # cs) =
     (let m = takeWhile is_digit (c # cs)
      in if 10 \<le> length m then Some m else matchDigits10 cs)"

text \<open>
  \<^verbatim>\<open>s.match(/(\d\s*){10,}/)\<close>. \<open>digitGroups\<close> is what the greedy repetition of
  the group consumes at the head; giving back white space never lets a further group
  match, so a start fails when fewer than ten groups were consumed.
\<close>

function digitGroups :: "string \<Rightarrow> string" where
  "digitGroups [] = []"
| "digitGroups (c # cs) =
     (if is_digit c then c # takeWhile is_space cs @ digitGroups (dropWhile is_space cs)
      else [])"
  by pat_completeness auto
termination
  by (relation "measure length") (auto simp: length_dropWhile_le less_Suc_eq_le)

fun matchSpacedDigits :: "string \<Rightarrow> string option" where
  "matchSpacedDigits [] = None"
| "matchSpacedDigits (c # cs) =
     (let m = digitGroups (c # cs)
      in if 10 \<le> length (filter is_digit m) then Some m else matchSpacedDigits cs)"

text \<open>\<^verbatim>\<open>extractPhoneNumber\<close> (lines 119 to 152).\<close>

definition extractPhoneNumber :: "string \<Rightarrow> string option" where
  "extractPhoneNumber text =
     (let normalized = normalizeWords text;
          cleanedDigits = stripSeparators normalized
      in case matchDigits10 cleanedDigits of
           Some phoneMatch \<Rightarrow> Some (sliceLast 10 phoneMatch)
         | None \<Rightarrow>
             (case matchSpacedDigits normalized of
                Some spacedDigits \<Rightarrow>
                  (let digits = filter is_digit spacedDigits
                   in if 10 \<le> length digits then Some (sliceLast 10 digits) else None)
              | None \<Rightarrow> None))"

text \<open>
  The words of the specification, written without the regular expressions. The
  digits, the letters and the separators are the units of five tables.
\<close>

definition decimalDigits :: string where
  "decimalDigits = ''0123456789''"

definition lowerLetters :: string where
  "lowerLetters = ''abcdefghijklmnopqrstuvwxyz''"

definition upperLetters :: string where
  "upperLetters = ''ABCDEFGHIJKLMNOPQRSTUVWXYZ''"

definition wordUnits :: string where
  "wordUnits = lowerLetters @ upperLetters @ decimalDigits @ ''_''"

definition separatorUnits :: string where
  "separatorUnits =
     [CHR 0x09, CHR 0x0A, CHR 0x0B, CHR 0x0C, CHR 0x0D, CHR '' '', CHR 0xA0] @ ''-().,''"

definition lowerLetter :: "char \<Rightarrow> char" where
  "lowerLetter c = (case map_of (zip upperLetters lowerLetters) c of Some l \<Rightarrow> l | None \<Rightarrow> c)"

text \<open>
  The tokens of a text: each run of letters, digits and underscores, as long as it
  can be, is one token, and every other unit is a token alone. A spoken digit is a
  token that is a number word, whatever its capitals. The spoken form of a text is
  the text with each spoken digit replaced by its numeral.
\<close>

function tokens :: "string \<Rightarrow> string list" where
  "tokens [] = []"
| "tokens (c # cs) =
     (if c \<in> set wordUnits
      then takeWhile (\<lambda>x. x \<in> set wordUnits) (c # cs) #
             tokens (dropWhile (\<lambda>x. x \<in> set wordUnits) cs)
      else [c] # tokens cs)"
  by pat_completeness auto
termination
  by (relation "measure length") (auto simp: length_dropWhile_le less_Suc_eq_le)

definition spokenDigit :: "string \<Rightarrow> string option" where
  "spokenDigit tok = map_of numberWords (map lowerLetter tok)"

definition spokenForm :: "string \<Rightarrow> string" where
  "spokenForm text =
     concat (map (\<lambda>tok. case spokenDigit tok of Some d \<Rightarrow> d | None \<Rightarrow> tok) (tokens text))"

text \<open>
  One replacement seen on one token, and the words it is used with: not empty and
  made of word characters.
\<close>

definition replaceToken :: "string \<Rightarrow> string \<Rightarrow> string \<Rightarrow> string" where
  "replaceToken w d tok = (if tok = w then d else tok)"

definition wordy :: "string \<Rightarrow> bool" where
  "wordy w = (w \<noteq> [] \<and> (\<forall>x \<in> set w. is_word_char x))"

text \<open>
  The runs of consecutive digits of a text, in order, each as long as it can be; the
  first of them with at least ten digits; the last ten units of a run.
\<close>

function digitRuns :: "string \<Rightarrow> string list" where
  "digitRuns [] = []"
| "digitRuns (c # cs) =
     (if c \<in> set decimalDigits
      then takeWhile (\<lambda>x. x \<in> set decimalDigits) (c # cs) #
             digitRuns (dropWhile (\<lambda>x. x \<in> set decimalDigits) cs)
      else digitRuns cs)"
  by pat_completeness auto
termination
  by (relation "measure length") (auto simp: length_dropWhile_le less_Suc_eq_le)

definition firstLongRun :: "string \<Rightarrow> string option" where
  "firstLongRun s = find (\<lambda>r. 10 \<le> length r) (digitRuns s)"

definition lastTen :: "string \<Rightarrow> string" where
  "lastTen r = rev (take 10 (rev r))"

subsection \<open>extractName\<close>

text \<open>
  The five patterns (lines 159 to 165) share one shape: a literal, then one of some
  literal alternatives, then \<^verbatim>\<open>\s+([a-z]+)\<close>, all with the flag \<^verbatim>\<open>i\<close>. A
  pattern is its literal and its alternatives, in lower case.
\<close>

definition apostrophe :: char where
  "apostrophe = CHR 0x27"

definition namePatterns :: "(string \<times> string list) list" where
  "namePatterns =
     [(''my name is'', [[]]),
      (''i'', [[apostrophe, CHR ''m''], '' am'']),
      (''this is'', [[]]),
      (''call me'', [[]]),
      (''name'', [[apostrophe, CHR ''s''], '' is''])]"

definition falsePositives :: "string list" where
  "falsePositives =
     [''calling'', ''looking'', ''trying'', ''here'', ''there'', ''asking'', ''booking'']"

text \<open>
  Without the \<^verbatim>\<open>u\<close> flag a unit matches a pattern character ignoring case when
  their upper cases agree, and a unit outside ASCII never agrees with an ASCII one. The
  pattern characters are ASCII, so only A to Z need folding.
\<close>

definition foldCase :: "char \<Rightarrow> char" where
  "foldCase c = (if 65 \<le> code c \<and> code c \<le> 90 then char_of (code c + 32) else c)"

definition matchLiteral :: "string \<Rightarrow> string \<Rightarrow> string option" where
  "matchLiteral lit s =
     (if length lit \<le> length s \<and> map foldCase (take (length lit) s) = lit
      then Some (drop (length lit) s) else None)"

text \<open>
  \<^verbatim>\<open>\s+([a-z]+)\<close> at the head: all the white space, then all the letters; both
  must be there. The result is the capture.
\<close>

definition matchCapture :: "string \<Rightarrow> string option" where
  "matchCapture s =
     (let rest = dropWhile is_space s;
          name = takeWhile is_letter rest
      in if takeWhile is_space s \<noteq> [] \<and> name \<noteq> [] then Some name else None)"

text \<open>The alternatives are tried in order; one that fails later gives way to the next.\<close>

fun matchAlternatives :: "string list \<Rightarrow> string \<Rightarrow> string option" where
  "matchAlternatives [] s = None"
| "matchAlternatives (a # alts) s =
     (case matchLiteral a s of
        Some rest \<Rightarrow>
          (case matchCapture rest of
             Some name \<Rightarrow> Some name
           | None \<Rightarrow> matchAlternatives alts s)
      | None \<Rightarrow> matchAlternatives alts s)"

definition matchAt :: "string \<times> string list \<Rightarrow> string \<Rightarrow> string option" where
  "matchAt pattern s =
     (case matchLiteral (fst pattern) s of
        Some rest \<Rightarrow> matchAlternatives (snd pattern) rest
      | None \<Rightarrow> None)"

text \<open>\<^verbatim>\<open>text.match(pattern)\<close>: the capture of the leftmost match.\<close>

fun matchPattern :: "string \<times> string list \<Rightarrow> string \<Rightarrow> string option" where
  "matchPattern pattern [] = matchAt pattern []"
| "matchPattern pattern (c # cs) =
     (case matchAt pattern (c # cs) of
        Some name \<Rightarrow> Some name
      | None \<Rightarrow> matchPattern pattern cs)"

definition capitalize :: "string \<Rightarrow> string" where
  "capitalize name =
     (case name of [] \<Rightarrow> [] | c # cs \<Rightarrow> toUpperChar c # toLowerCase cs)"

text \<open>The loop over the patterns (lines 167 to 179).\<close>

fun firstAccepted :: "(string \<times> string list) list \<Rightarrow> string \<Rightarrow> string option" where
  "firstAccepted [] text = None"
| "firstAccepted (pattern # patterns) text =
     (case matchPattern pattern text of
        Some name \<Rightarrow>
          if toLowerCase name \<notin> set falsePositives then Some (capitalize name)
          else firstAccepted patterns text
      | None \<Rightarrow> firstAccepted patterns text)"

definition extractName :: "string \<Rightarrow> string option" where
  "extractName text = firstAccepted namePatterns text"


section \<open>Notions used in the statements\<close>

text \<open>A recording session is open for every recorder that is recording.\<close>

definition openSessions :: "agent \<Rightarrow> nat" where
  "openSessions s = length (filter (\<lambda>r. r = RecRecording) (recorders s))"

text \<open>The pending auto-restart timers, by handle.\<close>

definition pendingRestarts :: "agent \<Rightarrow> nat list" where
  "pendingRestarts s = map fst (filter (\<lambda>t. snd (snd t) = AutoRestartCb) (timers s))"

text \<open>
  Every pending auto-restart timer is the one the ref names. It holds for the mounted
  component and every callback keeps it.
\<close>

definition restartsTracked :: "agent \<Rightarrow> bool" where
  "restartsTracked s = (\<forall>h \<in> set (pendingRestarts s). autoRestartTimeoutRef s = Some h)"

text \<open>From \<open>s\<close> to \<open>s'\<close> no auto-restart was scheduled and the ref was not written.\<close>

definition keepsRestarts :: "agent \<Rightarrow> agent \<Rightarrow> bool" where
  "keepsRestarts s s' =
     (set (pendingRestarts s') \<subseteq> set (pendingRestarts s) \<and>
      autoRestartTimeoutRef s' = autoRestartTimeoutRef s)"

text \<open>
  Every tool call record of the state is one of \<open>old\<close> or is running or completed.
\<close>

definition streamStatus :: "ToolCallData list \<Rightarrow> agent \<Rightarrow> bool" where
  "streamStatus old s =
     (\<forall>tc \<in> set (toolCalls s). tc \<in> set old \<or> tc_status tc = Running \<or> tc_status tc = Completed)"

text \<open>
  The words of the specification for \<^verbatim>\<open>extractName\<close>: the introductory phrases,
  and what it means that a text introduces a name \<open>c\<close>: somewhere in the text stands
  one of the phrases in any case, then white space, then the letters \<open>c\<close>, and no
  letter follows them.
\<close>

definition introPhrases :: "string list" where
  "introPhrases =
     [''my name is'', ''i'm'', ''i am'', ''this is'', ''call me'', ''name's'', ''name is'']"

definition introduces :: "string \<Rightarrow> string \<Rightarrow> bool" where
  "introduces text c =
     (\<exists>pre phrase ws post.
        text = pre @ phrase @ ws @ c @ post \<and>
        map foldCase phrase \<in> set introPhrases \<and>
        ws \<noteq> [] \<and> (\<forall>x \<in> set ws. is_space x) \<and>
        c \<noteq> [] \<and> (\<forall>x \<in> set c. is_letter x) \<and>
        (post = [] \<or> \<not> is_letter (hd post)))"

text \<open>The phrases a pattern of the source stands for.\<close>

definition phrasesOf :: "string \<times> string list \<Rightarrow> string list" where
  "phrasesOf pattern = map (\<lambda>a. fst pattern @ a) (snd pattern)"

section \<open>Example states and inputs\<close>

text \<open>A call with two tool calls running.\<close>

definition twoCalls :: agent where
  "twoCalls = (inCall 1) \<lparr> toolCalls :=
     [\<lparr> tc_id = ''a'', tc_name = ''fetch_slots'', tc_parameters = None, tc_result = None,
        tc_status = Running \<rparr>,
      \<lparr> tc_id = ''b'', tc_name = ''book_appointment'', tc_parameters = None, tc_result = None,
        tc_status = Running \<rparr>] \<rparr>"

text \<open>A call whose recorder has just stopped with 700 and with 1200 bytes buffered.\<close>

definition shortClip :: agent where
  "shortClip = (inCall 1) \<lparr> chunksRef := [400, 300] \<rparr>"

definition longClip :: agent where
  "longClip = (inCall 1) \<lparr> chunksRef := [600, 600] \<rparr>"


text \<open>
  A call in which the user switched the microphone on and granted access, so that a
  recording is in progress; and the same with an auto-restart pending as well.
\<close>

definition recordingNow :: agent where
  "recordingNow = micGranted 7 (toggleMic (inCall 1))"

definition callBusy :: agent where
  "callBusy = scheduleAutoRestart 500 (micGranted 7 (toggleMic (inCall 1)))"

text \<open>
  Ticks of a detector loop: three readings that stay at or below the threshold, and
  a run in which the caller speaks at 16 ms and is silent from then on.
\<close>

definition silentTicks :: "((agent \<Rightarrow> agent) \<times> int \<times> nat list) list" where
  "silentTicks = [(id, 0, [3, 9, 12]), (id, 2000, [0, 0, 0]), (id, 4000, [15, 15, 15])]"

definition spokenTicks :: "((agent \<Rightarrow> agent) \<times> int \<times> nat list) list" where
  "spokenTicks =
     [(id, 0, [3, 9, 12]), (id, 16, [40, 80, 90]), (id, 1000, [1, 1, 1]), (id, 1600, [0, 0, 0])]"

text \<open>
  Ticks of a detector loop that outlives its recording: the caller speaks at 16 ms;
  before the next tick, which comes at 5000 ms with a silent reading, the microphone
  button is pressed twice, which stops the recording and starts a new one.
\<close>

definition staleTicks :: "((agent \<Rightarrow> agent) \<times> int \<times> nat list) list" where
  "staleTicks = [(id, 16, [40, 80, 90]), (\<lambda>s. toggleMic (toggleMic s), 5000, [0, 0, 0])]"

text \<open>
  A call in which the microphone button was pressed twice before access was granted,
  and access was then granted to both requests: two recorders are recording.
\<close>

definition twoSessions :: agent where
  "twoSessions = micGranted 8 (micGranted 7 (toggleMic (toggleMic (inCall 1))))"

section \<open>Properties of the streamed response consumer\<close>

lemmas setters = setIsListening_def setIsSpeaking_def setIsProcessing_def setIsCallActive_def

lemmas timer_defs = clearTimeout_def setTimeout_def scheduleAutoRestart_def

lemmas capture_defs = startRecorder_def startListening_def micGranted_def micDenied_def
  stopRecorder_def stopListening_def safetyCallback_def autoRestartCallback_def fireTimer_def
  isRecording_def

lemmas playback_defs = postMessage_def playAudio_def clearAudio_def signalAudioComplete_def
  workletEnded_def

lemmas call_defs = endCall_begin_def endCall_settle_def endCall_def sendVoiceMessage_def
  onstop_def ondataavailable_def toggleMic_def

lemma toolCalls_scheduleAutoRestart [simp]: "toolCalls (scheduleAutoRestart d s) = toolCalls s"
  by (simp add: timer_defs Let_def split: option.split)

lemma toolCalls_endCall [simp]: "toolCalls (endCall ok s) = toolCalls s"
  by (simp add: call_defs setters timer_defs playback_defs capture_defs Let_def
      split: option.split)

lemma playAudio_after: "playAudio d s = Inr s' \<Longrightarrow> s' = afterPlayAudio d s"
  by (simp add: afterPlayAudio_def)

lemma afterPlayAudio_cases:
  "afterPlayAudio d s = s \<or>
   (\<exists>samples. afterPlayAudio d s = setIsSpeaking True (postMessage (AudioMsg samples) s))"
  by (auto simp: afterPlayAudio_def playAudio_def split: sum.splits)

lemma toolCalls_playAudio [simp]: "toolCalls (afterPlayAudio d s) = toolCalls s"
  using afterPlayAudio_cases[of d s] by (auto simp: postMessage_def setters split: if_splits)

lemma toolCalls_signalAudioComplete [simp]: "toolCalls (signalAudioComplete s) = toolCalls s"
  by (simp add: playback_defs)

lemma handleEvent_status:
  "streamStatus old s \<Longrightarrow> handleEvent ok now ev (tr, s) = Inr (tr', s') \<Longrightarrow> streamStatus old s'"
  by (cases ev)
    (auto simp: streamStatus_def Let_def split: if_splits sum.splits dest!: playAudio_after)

lemma handleLine_status:
  "streamStatus old s \<Longrightarrow> handleLine ok now l (tr, s) = (tr', s') \<Longrightarrow> streamStatus old s'"
  by (cases l)
    (auto simp: handleLine_def tryLine_def streamStatus_def split: sum.splits js_exn.splits
      dest!: handleEvent_status[unfolded streamStatus_def, rotated])

lemma handleLines_status:
  "streamStatus old s \<Longrightarrow> streamStatus old (snd (handleLines ok now ls (tr, s)))"
proof (induction ls arbitrary: tr s)
  case Nil
  then show ?case by (simp add: handleLines_def)
next
  case (Cons l ls)
  obtain tr' s' where line: "handleLine ok now l (tr, s) = (tr', s')"
    by (cases "handleLine ok now l (tr, s)")
  from Cons.prems line have "streamStatus old s'"
    by (rule handleLine_status)
  then have "streamStatus old (snd (handleLines ok now ls (tr', s')))"
    by (rule Cons.IH)
  with line show ?case by (simp add: handleLines_def)
qed

text \<open>
  Claim C10. Whatever lines a turn's stream holds, every tool call record in the list
  afterwards is a record that was there before, unchanged, or has the status running
  or completed: the records the stream path creates are running, the records it
  changes are completed. In a call, whose list starts empty (\<^verbatim>\<open>startCall\<close> resets
  it), no record is ever pending or in error after a turn, whatever the tool-call-end
  events carried.
\<close>

theorem stream_statuses:
  "(\<forall>tc \<in> set (toolCalls (snd (handleLines ok now ls (tr, s)))).
      tc \<in> set (toolCalls s) \<or> tc_status tc = Running \<or> tc_status tc = Completed) \<and>
   (toolCalls s = [] \<longrightarrow>
      (\<forall>tc \<in> set (toolCalls (consumeStream ok now ls fails s)).
         tc_status tc \<noteq> Pending \<and> tc_status tc \<noteq> Failed))"
proof -
  have a: "streamStatus (toolCalls s) (snd (handleLines ok now ls (tr, s)))" for tr
    by (rule handleLines_status) (simp add: streamStatus_def)
  have b: "toolCalls (consumeStream ok now ls fails s) =
      toolCalls (snd (handleLines ok now ls ([], s)))"
    by (simp add: consumeStream_def Let_def setIsProcessing_def)
  show ?thesis using a[of tr] a[of "[]"] b
    by (auto simp: streamStatus_def)
qed

theorem stream_statuses_witness:
  "tc_status (toolCalls (consumeStream True 0
      [Parsed (ToolCallStart ''a'' ''fetch_slots'' None),
       Parsed (ToolCallStart ''b'' ''book'' None),
       Parsed (ToolCallEnd ''a'' (Some ''error: no slots''))] False (inCall 1)) ! 0) = Completed \<and>
   tc_status (toolCalls (consumeStream True 0
      [Parsed (ToolCallStart ''a'' ''fetch_slots'' None),
       Parsed (ToolCallStart ''b'' ''book'' None),
       Parsed (ToolCallEnd ''a'' (Some ''error: no slots''))] False (inCall 1)) ! 1) = Running"
  using stream_statuses[of True 0
      "[Parsed (ToolCallStart ''a'' ''fetch_slots'' None),
        Parsed (ToolCallStart ''b'' ''book'' None),
        Parsed (ToolCallEnd ''a'' (Some ''error: no slots''))]" "[]" "inCall 1" False]
  by (simp add: consumeStream_def handleLines_def handleLine_def tryLine_def inCall_def
      mounted_def setIsProcessing_def)

text \<open>
  Claim C7. A tool-call-end line keeps the length of the tool call list. When its id
  matches no record, the line changes nothing at all. In every case the record at each
  position is the old record at that position, with result and status set when its id
  is the event's and as it was otherwise: no record is created, none is deleted, and
  no record with another id changes.
\<close>

theorem tool_call_end_frame:
  "length (toolCalls (snd (handleLine ok now (Parsed (ToolCallEnd i r)) (tr, s)))) =
     length (toolCalls s) \<and>
   ((\<forall>tc \<in> set (toolCalls s). tc_id tc \<noteq> i) \<longrightarrow>
      handleLine ok now (Parsed (ToolCallEnd i r)) (tr, s) = (tr, s)) \<and>
   (\<forall>k < length (toolCalls s).
      toolCalls (snd (handleLine ok now (Parsed (ToolCallEnd i r)) (tr, s))) ! k =
        (if tc_id (toolCalls s ! k) = i
         then (toolCalls s ! k) \<lparr> tc_result := r, tc_status := Completed \<rparr>
         else toolCalls s ! k))"
proof -
  have m: "(\<forall>tc \<in> set xs. tc_id tc \<noteq> i) \<Longrightarrow>
      map (\<lambda>tc. if tc_id tc = i then tc \<lparr> tc_result := r, tc_status := Completed \<rparr> else tc) xs
        = xs" for xs
    by (induction xs) auto
  show ?thesis
    by (auto simp: handleLine_def tryLine_def m)
qed

theorem tool_call_end_frame_witness:
  "toolCalls (snd (handleLine True 0 (Parsed (ToolCallEnd ''zz'' (Some ''done''))) ([], twoCalls)))
     = toolCalls twoCalls \<and>
   toolCalls (snd (handleLine True 0 (Parsed (ToolCallEnd ''b'' (Some ''done''))) ([], twoCalls))) ! 0
     = toolCalls twoCalls ! 0 \<and>
   tc_status (toolCalls (snd (handleLine True 0 (Parsed (ToolCallEnd ''b'' (Some ''done'')))
     ([], twoCalls))) ! 1) = Completed"
  using tool_call_end_frame[of True 0 "''zz''" "Some ''done''" "[]" twoCalls]
    tool_call_end_frame[of True 0 "''b''" "Some ''done''" "[]" twoCalls]
  by (simp add: twoCalls_def inCall_def mounted_def)

text \<open>
  Claim C5. An error event does not end the turn. The \<^verbatim>\<open>throw\<close> of its case is
  caught by the \<^verbatim>\<open>catch\<close> of the same line, which logs it and goes on: the lines
  after it are handled from the same transcript and the same state, but for the log.
  For the stream of an error event, a transcript delta and a tool call start, the user
  is shown nothing, the delta reaches the live transcript and the tool call is
  recorded.
\<close>

theorem error_event_swallowed:
  "handleLines ok now (Parsed (ErrorEvent e) # ls) (tr, s) =
     handleLines ok now ls (tr, s \<lparr> consoleErrors := consoleErrors s @ [e] \<rparr>) \<and>
   toasts (consumeStream True 0
      [Parsed (ErrorEvent ''boom''), Parsed (Transcript ''hi''),
       Parsed (ToolCallStart ''a'' ''book'' None)] False (inCall 1)) = [] \<and>
   currentTranscript (consumeStream True 0
      [Parsed (ErrorEvent ''boom''), Parsed (Transcript ''hi''),
       Parsed (ToolCallStart ''a'' ''book'' None)] False (inCall 1)) = ''hi'' \<and>
   length (toolCalls (consumeStream True 0
      [Parsed (ErrorEvent ''boom''), Parsed (Transcript ''hi''),
       Parsed (ToolCallStart ''a'' ''book'' None)] False (inCall 1))) = 1 \<and>
   consoleErrors (consumeStream True 0
      [Parsed (ErrorEvent ''boom''), Parsed (Transcript ''hi''),
       Parsed (ToolCallStart ''a'' ''book'' None)] False (inCall 1)) = [''boom'']"
  by (simp add: consumeStream_def handleLines_def handleLine_def tryLine_def describe_def
      inCall_def mounted_def setIsProcessing_def)

section \<open>Properties of capture, restart and the end of a call\<close>

text \<open>
  Claim C6. When a recorder has stopped, a clip of at most 1000 bytes is dropped: the
  handler does what scheduling an auto-restart with the delay of 100 ms does on the
  emptied buffer, no turn is started with the clip, and a restart timer with that
  delay is pending under the handle the ref names. A clip of more than 1000 bytes is
  handed to \<^verbatim>\<open>sendVoiceMessage\<close>: in a call with a session it becomes the payload
  of a turn in flight, and this step leaves the timers and the restart ref as they
  were. (A clip of exactly 1000 bytes is dropped.)
\<close>

theorem onstop_discards_or_sends:
  "(sum_list (chunksRef s) \<le> 1000 \<longrightarrow>
      onstop s = scheduleAutoRestart 100 (s \<lparr> chunksRef := [] \<rparr>) \<and>
      inflight (onstop s) = inflight s \<and>
      (\<exists>h. autoRestartTimeoutRef (onstop s) = Some h \<and>
           (h, 100, AutoRestartCb) \<in> set (timers (onstop s)))) \<and>
   (1000 < sum_list (chunksRef s) \<longrightarrow>
      onstop s = sendVoiceMessage (sum_list (chunksRef s)) (s \<lparr> chunksRef := [] \<rparr>) \<and>
      timers (onstop s) = timers s \<and>
      autoRestartTimeoutRef (onstop s) = autoRestartTimeoutRef s \<and>
      (truthy (sessionId s) \<longrightarrow> inflight (onstop s) = inflight s @ [sum_list (chunksRef s)]))"
proof (cases "sum_list (chunksRef s) \<le> 1000")
  case True
  let ?emptied = "s \<lparr> chunksRef := [] \<rparr>"
  from True have drop: "onstop s = scheduleAutoRestart 100 ?emptied"
    by (simp add: onstop_def Let_def)
  have "inflight (scheduleAutoRestart 100 ?emptied) = inflight s"
    by (simp add: timer_defs Let_def split: option.split)
  moreover have "\<exists>h. autoRestartTimeoutRef (scheduleAutoRestart 100 ?emptied) = Some h \<and>
      (h, 100, AutoRestartCb) \<in> set (timers (scheduleAutoRestart 100 ?emptied))"
    by (simp add: timer_defs Let_def split: option.split)
  ultimately show ?thesis using True drop by simp
next
  case False
  let ?emptied = "s \<lparr> chunksRef := [] \<rparr>"
  from False have send: "onstop s = sendVoiceMessage (sum_list (chunksRef s)) ?emptied"
    by (simp add: onstop_def Let_def)
  have "timers (sendVoiceMessage n ?emptied) = timers s \<and>
      autoRestartTimeoutRef (sendVoiceMessage n ?emptied) = autoRestartTimeoutRef s" for n
    by (simp add: sendVoiceMessage_def setIsProcessing_def)
  moreover have "truthy (sessionId s) \<longrightarrow>
      inflight (sendVoiceMessage n ?emptied) = inflight s @ [n]" for n
    by (simp add: sendVoiceMessage_def setIsProcessing_def)
  ultimately show ?thesis using False send by simp
qed

theorem onstop_discards_or_sends_witness:
  "inflight (onstop shortClip) = [] \<and>
   autoRestartTimeoutRef (onstop shortClip) = Some 1 \<and>
   timers (onstop shortClip) = [(1, 100, AutoRestartCb)] \<and>
   inflight (onstop longClip) = [1200] \<and>
   timers (onstop longClip) = []"
  using onstop_discards_or_sends[of shortClip] onstop_discards_or_sends[of longClip]
  by (simp add: shortClip_def longClip_def inCall_def mounted_def truthy_def
      onstop_def sendVoiceMessage_def setters timer_defs Let_def)

subsection \<open>The auto-restart timer\<close>

lemma pendingRestarts_clear [simp]:
  "pendingRestarts (clearTimeout h s) = filter (\<lambda>x. x \<noteq> h) (pendingRestarts s)"
  by (auto simp: pendingRestarts_def clearTimeout_def filter_map comp_def
      intro!: arg_cong[where f = "map fst"] filter_cong)

lemma pendingRestarts_startListening [simp]:
  "pendingRestarts (startListening s) = pendingRestarts s"
  by (simp add: pendingRestarts_def startListening_def startRecorder_def setTimeout_def
      setters Let_def split: option.split)

lemma pendingRestarts_ref [simp]:
  "pendingRestarts (s \<lparr> autoRestartTimeoutRef := x \<rparr>) = pendingRestarts s"
  by (simp add: pendingRestarts_def)

lemma fireTimer_restart:
  "map_of (timers s) h = Some (d, AutoRestartCb) \<Longrightarrow>
   fireTimer h s =
     (if restartGuards s
      then startListening ((clearTimeout h s) \<lparr> autoRestartTimeoutRef := None \<rparr>)
      else (clearTimeout h s) \<lparr> autoRestartTimeoutRef := None \<rparr>)"
  by (simp add: fireTimer_def autoRestartCallback_def restartGuards_def clearTimeout_def Let_def)

lemma startListening_ref [simp]:
  "autoRestartTimeoutRef (startListening s) = autoRestartTimeoutRef s"
  by (simp add: startListening_def startRecorder_def setTimeout_def setters Let_def
      split: option.split)



subsection \<open>The call-active flag stays off\<close>

text \<open>
  The ref \<^verbatim>\<open>isCallActiveRef\<close> is written by \<^verbatim>\<open>endCall\<close> and by the effect
  that mirrors the state \<^verbatim>\<open>isCallActive\<close>, which only \<^verbatim>\<open>startCall\<close> sets to
  true. So no event of a call switches the flag on again.
\<close>

lemma flag_setTimeout [simp]: "isCallActiveRef (snd (setTimeout cb d s)) = isCallActiveRef s"
  by (simp add: setTimeout_def Let_def)

lemma flag_clearTimeout [simp]: "isCallActiveRef (clearTimeout h s) = isCallActiveRef s"
  by (simp add: clearTimeout_def)

lemma flag_scheduleAutoRestart [simp]:
  "isCallActiveRef (scheduleAutoRestart d s) = isCallActiveRef s"
  by (simp add: scheduleAutoRestart_def setTimeout_def Let_def split: option.split)

lemma flag_startRecorder [simp]: "isCallActiveRef (startRecorder s) = isCallActiveRef s"
  by (simp add: startRecorder_def setTimeout_def setIsListening_def Let_def)

lemma flag_startListening [simp]: "isCallActiveRef (startListening s) = isCallActiveRef s"
  by (simp add: startListening_def split: option.split)

lemma flag_micGranted [simp]: "isCallActiveRef (micGranted st s) = isCallActiveRef s"
  by (simp add: micGranted_def)

lemma flag_micDenied [simp]: "isCallActiveRef (micDenied s) = isCallActiveRef s"
  by (simp add: micDenied_def)

lemma flag_stopListening [simp]: "isCallActiveRef (stopListening s) = isCallActiveRef s"
  by (simp add: stopListening_def stopRecorder_def setIsListening_def Let_def split: option.split)

lemma flag_safetyCallback [simp]: "isCallActiveRef (safetyCallback r s) = isCallActiveRef s"
  by (simp add: safetyCallback_def stopRecorder_def setIsListening_def)

lemma flag_autoRestartCallback [simp]: "isCallActiveRef (autoRestartCallback s) = isCallActiveRef s"
  by (simp add: autoRestartCallback_def Let_def)

lemma flag_fireTimer [simp]: "isCallActiveRef (fireTimer h s) = isCallActiveRef s"
  by (simp add: fireTimer_def Let_def split: option.split timer_cb.split prod.split)

lemma flag_playAudio [simp]: "isCallActiveRef (afterPlayAudio d s) = isCallActiveRef s"
  using afterPlayAudio_cases[of d s]
  by (auto simp: postMessage_def setIsSpeaking_def split: if_splits)

lemma flag_clearAudio [simp]: "isCallActiveRef (clearAudio s) = isCallActiveRef s"
  by (simp add: clearAudio_def postMessage_def setIsSpeaking_def)

lemma flag_signalAudioComplete [simp]: "isCallActiveRef (signalAudioComplete s) = isCallActiveRef s"
  by (simp add: signalAudioComplete_def postMessage_def)

lemma flag_workletEnded [simp]: "isCallActiveRef (workletEnded s) = isCallActiveRef s"
  by (simp add: workletEnded_def setIsSpeaking_def)

lemma flag_sendVoiceMessage [simp]: "isCallActiveRef (sendVoiceMessage b s) = isCallActiveRef s"
  by (simp add: sendVoiceMessage_def setIsProcessing_def)

lemma flag_onstop [simp]: "isCallActiveRef (onstop s) = isCallActiveRef s"
  by (simp add: onstop_def Let_def)

lemma flag_ondataavailable [simp]: "isCallActiveRef (ondataavailable n s) = isCallActiveRef s"
  by (simp add: ondataavailable_def)

lemma flag_toggleMic [simp]: "isCallActiveRef (toggleMic s) = isCallActiveRef s"
  by (simp add: toggleMic_def)

lemma flag_toggleMute [simp]: "isCallActiveRef (toggleMute s) = isCallActiveRef s"
  by (simp add: toggleMute_def Let_def)

lemma flag_effectCleanup [simp]: "isCallActiveRef (effectCleanup s) = isCallActiveRef s"
  by (simp add: effectCleanup_def split: option.split)

lemma flag_silenceStop [simp]: "isCallActiveRef (silenceStop s) = isCallActiveRef s"
  by (simp add: silenceStop_def stopRecorder_def setIsListening_def split: option.split)

lemma flag_checkAudioLevel [simp]:
  "isCallActiveRef (snd (snd (checkAudioLevel now d (v, s)))) = isCallActiveRef s"
  by (simp add: checkAudioLevel_def Let_def)

lemma flag_endCall_begin:
  "isCallActiveRef (endCall_begin s) = (isCallActiveRef s \<and> \<not> truthy (sessionId s))"
  by (simp add: endCall_begin_def setIsProcessing_def Let_def split: option.split)

lemma flag_endCall_settle:
  "\<not> isCallActiveRef s \<Longrightarrow> \<not> isCallActiveRef (endCall_settle ok s)"
  by (simp add: endCall_settle_def setters)

lemma flag_endCall: "\<not> isCallActiveRef s \<Longrightarrow> \<not> isCallActiveRef (endCall ok s)"
  by (simp add: endCall_def flag_endCall_settle flag_endCall_begin)

lemma handleEvent_flag:
  "\<not> isCallActiveRef s \<Longrightarrow> handleEvent ok now ev (tr, s) = Inr (tr', s') \<Longrightarrow> \<not> isCallActiveRef s'"
  by (cases ev)
    (auto simp: Let_def flag_endCall split: if_splits sum.splits dest!: playAudio_after)

lemma handleLine_flag:
  "\<not> isCallActiveRef s \<Longrightarrow> \<not> isCallActiveRef (snd (handleLine ok now l (tr, s)))"
proof (cases "tryLine ok now l (tr, s)")
  case (Inl x)
  assume "\<not> isCallActiveRef s"
  with Inl show ?thesis
    by (simp add: handleLine_def split: js_exn.splits)
next
  case (Inr st)
  assume off: "\<not> isCallActiveRef s"
  obtain tr' s' where st: "st = (tr', s')" by (cases st)
  from Inr st off have "\<not> isCallActiveRef s'"
    by (cases l) (auto simp: tryLine_def dest: handleEvent_flag)
  with Inr st show ?thesis
    by (simp add: handleLine_def)
qed

lemma step_flag: "\<not> isCallActiveRef s \<Longrightarrow> \<not> isCallActiveRef (step e s)"
  by (cases e) (simp_all add: handleLine_flag flag_endCall_begin flag_endCall_settle setIsProcessing_def)

lemma run_flag: "\<not> isCallActiveRef s \<Longrightarrow> \<not> isCallActiveRef (run es s)"
  unfolding run_def by (induction es arbitrary: s) (simp_all add: step_flag)

subsection \<open>Pending auto-restarts are the one the ref names\<close>

lemma pr_setTimeout_safety [simp]:
  "pendingRestarts (snd (setTimeout (SafetyCb r) d s)) = pendingRestarts s"
  by (simp add: setTimeout_def pendingRestarts_def Let_def)

lemma pr_setTimeout_restart [simp]:
  "pendingRestarts (snd (setTimeout AutoRestartCb d s)) = pendingRestarts s @ [Suc (nextTimer s)]"
  by (simp add: setTimeout_def pendingRestarts_def Let_def)

lemma ref_setTimeout [simp]:
  "autoRestartTimeoutRef (snd (setTimeout cb d s)) = autoRestartTimeoutRef s"
  by (simp add: setTimeout_def Let_def)

lemma ref_clearTimeout [simp]:
  "autoRestartTimeoutRef (clearTimeout h s) = autoRestartTimeoutRef s"
  by (simp add: clearTimeout_def)

lemma tracked_none:
  "restartsTracked s \<Longrightarrow> autoRestartTimeoutRef s = None \<Longrightarrow> pendingRestarts s = []"
  by (cases "pendingRestarts s") (auto simp: restartsTracked_def)

lemma tracked_some:
  "restartsTracked s \<Longrightarrow> autoRestartTimeoutRef s = Some h \<Longrightarrow>
   filter (\<lambda>x. x \<noteq> h) (pendingRestarts s) = []"
  by (auto simp: restartsTracked_def filter_empty_conv)

lemma tracked_effectCleanup:
  "restartsTracked s \<Longrightarrow> pendingRestarts (effectCleanup s) = [] \<and>
     autoRestartTimeoutRef (effectCleanup s) = None"
  by (auto simp: effectCleanup_def tracked_none tracked_some split: option.split)

lemma tracked_scheduleAutoRestart:
  "restartsTracked s \<Longrightarrow> restartsTracked (scheduleAutoRestart d s)"
proof -
  assume tr: "restartsTracked s"
  have eq: "scheduleAutoRestart d s =
      (snd (setTimeout AutoRestartCb d (effectCleanup s)))
        \<lparr> autoRestartTimeoutRef := Some (Suc (nextTimer s)) \<rparr>"
    by (simp add: scheduleAutoRestart_def effectCleanup_def setTimeout_def clearTimeout_def
        Let_def split: option.split)
  have "nextTimer (effectCleanup s) = nextTimer s"
    by (simp add: effectCleanup_def clearTimeout_def split: option.split)
  with tracked_effectCleanup[OF tr] show ?thesis
    by (simp add: eq restartsTracked_def)
qed

lemma keeps_refl [simp]: "keepsRestarts s s"
  by (simp add: keepsRestarts_def)

lemma keeps_trans: "keepsRestarts s s1 \<Longrightarrow> keepsRestarts s1 s2 \<Longrightarrow> keepsRestarts s s2"
  by (auto simp: keepsRestarts_def)

lemma keeps_tracked: "restartsTracked s \<Longrightarrow> keepsRestarts s s' \<Longrightarrow> restartsTracked s'"
  by (auto simp: keepsRestarts_def restartsTracked_def)

lemma keeps_fields:
  "timers s' = timers s \<Longrightarrow> autoRestartTimeoutRef s' = autoRestartTimeoutRef s \<Longrightarrow>
   keepsRestarts s s'"
  by (simp add: keepsRestarts_def pendingRestarts_def)

lemma keeps_clearTimeout [simp]: "keepsRestarts s (clearTimeout h s)"
  by (auto simp: keepsRestarts_def)

lemma keeps_setTimeout_safety [simp]: "keepsRestarts s (snd (setTimeout (SafetyCb r) d s))"
  by (simp add: keepsRestarts_def)

lemma keeps_setIsListening [simp]: "keepsRestarts s (setIsListening v s)"
  by (simp add: keeps_fields setIsListening_def)

lemma keeps_setIsSpeaking [simp]: "keepsRestarts s (setIsSpeaking v s)"
  by (simp add: keeps_fields setIsSpeaking_def)

lemma keeps_setIsProcessing [simp]: "keepsRestarts s (setIsProcessing v s)"
  by (simp add: keeps_fields setIsProcessing_def)

lemma keeps_setIsCallActive [simp]: "keepsRestarts s (setIsCallActive v s)"
  by (simp add: keeps_fields setIsCallActive_def)

lemma keeps_startRecorder [simp]: "keepsRestarts s (startRecorder s)"
  by (simp add: keepsRestarts_def pendingRestarts_def startRecorder_def setTimeout_def
      setIsListening_def Let_def)

lemma keeps_startListening [simp]: "keepsRestarts s (startListening s)"
  by (simp add: startListening_def keeps_fields split: option.split)

lemma keeps_micGranted [simp]: "keepsRestarts s (micGranted st s)"
proof -
  have a: "keepsRestarts s (s \<lparr> awaitingMic := n, streamRef := x, analyserRef := b \<rparr>)" for n x b
    by (simp add: keeps_fields)
  show ?thesis
    unfolding micGranted_def by (auto intro: keeps_trans[OF a keeps_startRecorder])
qed

lemma keeps_micDenied [simp]: "keepsRestarts s (micDenied s)"
  by (simp add: micDenied_def keeps_fields)

lemma keeps_stopListening [simp]: "keepsRestarts s (stopListening s)"
  by (auto simp: keepsRestarts_def pendingRestarts_def stopListening_def stopRecorder_def
      clearTimeout_def setIsListening_def Let_def split: option.split)

lemma keeps_safetyCallback [simp]: "keepsRestarts s (safetyCallback r s)"
  by (simp add: safetyCallback_def stopRecorder_def setIsListening_def keeps_fields)

lemma keeps_playAudio [simp]: "keepsRestarts s (afterPlayAudio d s)"
  using afterPlayAudio_cases[of d s]
  by (auto simp: postMessage_def setIsSpeaking_def keeps_fields split: if_splits)

lemma keeps_clearAudio [simp]: "keepsRestarts s (clearAudio s)"
  by (simp add: clearAudio_def postMessage_def setIsSpeaking_def keeps_fields)

lemma keeps_signalAudioComplete [simp]: "keepsRestarts s (signalAudioComplete s)"
  by (simp add: signalAudioComplete_def postMessage_def keeps_fields)

lemma keeps_sendVoiceMessage [simp]: "keepsRestarts s (sendVoiceMessage b s)"
  by (simp add: sendVoiceMessage_def setIsProcessing_def keeps_fields)

lemma keeps_ondataavailable [simp]: "keepsRestarts s (ondataavailable n s)"
  by (simp add: ondataavailable_def keeps_fields)

lemma keeps_toggleMic [simp]: "keepsRestarts s (toggleMic s)"
proof -
  have a: "keepsRestarts s (s \<lparr> isMicPausedRef := b \<rparr>)" for b
    by (simp add: keeps_fields)
  show ?thesis
    unfolding toggleMic_def
    by (auto intro: keeps_trans[OF a keeps_stopListening] keeps_trans[OF a keeps_startListening])
qed

lemma keeps_toggleMute [simp]: "keepsRestarts s (toggleMute s)"
proof -
  have a: "keepsRestarts s (s \<lparr> isMuted := b \<rparr>)" for b
    by (simp add: keeps_fields)
  show ?thesis
    unfolding toggleMute_def Let_def
    by (auto intro: a keeps_trans[OF a keeps_clearAudio])
qed

lemma keeps_silenceStop [simp]: "keepsRestarts s (silenceStop s)"
  by (simp add: silenceStop_def stopRecorder_def setIsListening_def keeps_fields
      split: option.split)

lemma keeps_checkAudioLevel [simp]:
  "keepsRestarts s (snd (snd (checkAudioLevel now d (v, s))))"
  by (simp add: checkAudioLevel_def Let_def)

lemmas keeps_step =
  keeps_trans[OF _ keeps_clearTimeout] keeps_trans[OF _ keeps_setIsListening]
  keeps_trans[OF _ keeps_setIsSpeaking] keeps_trans[OF _ keeps_setIsProcessing]
  keeps_trans[OF _ keeps_setIsCallActive] keeps_trans[OF _ keeps_startListening]
  keeps_trans[OF _ keeps_stopListening] keeps_trans[OF _ keeps_safetyCallback]
  keeps_trans[OF _ keeps_playAudio] keeps_trans[OF _ keeps_clearAudio]
  keeps_trans[OF _ keeps_signalAudioComplete] keeps_trans[OF _ keeps_sendVoiceMessage]

lemma tracked_autoRestartCallback:
  "restartsTracked s \<Longrightarrow> pendingRestarts s = [] \<Longrightarrow> restartsTracked (autoRestartCallback s)"
proof -
  assume "restartsTracked s" and empty: "pendingRestarts s = []"
  have "restartsTracked (s \<lparr> autoRestartTimeoutRef := None \<rparr>)"
    using empty by (simp add: restartsTracked_def pendingRestarts_def)
  then show ?thesis
    by (auto simp: autoRestartCallback_def Let_def intro: keeps_tracked)
qed

lemma pending_member:
  "map_of (timers s) h = Some (d, AutoRestartCb) \<Longrightarrow> h \<in> set (pendingRestarts s)"
  by (force simp: pendingRestarts_def dest: map_of_SomeD)

lemma tracked_fireTimer: "restartsTracked s \<Longrightarrow> restartsTracked (fireTimer h s)"
proof (cases "map_of (timers s) h")
  case None
  assume "restartsTracked s"
  with None show ?thesis by (simp add: fireTimer_def)
next
  case (Some t)
  assume tr: "restartsTracked s"
  obtain d cb where t: "t = (d, cb)" by (cases t)
  show ?thesis
  proof (cases cb)
    case AutoRestartCb
    with Some t have "h \<in> set (pendingRestarts s)"
      by (simp add: pending_member)
    with tr have "autoRestartTimeoutRef s = Some h"
      by (simp add: restartsTracked_def)
    with tr have "pendingRestarts (clearTimeout h s) = []"
      by (simp add: tracked_some)
    moreover have "restartsTracked (clearTimeout h s)"
      using tr by (rule keeps_tracked) simp
    ultimately have "restartsTracked (autoRestartCallback (clearTimeout h s))"
      by (simp add: tracked_autoRestartCallback)
    with Some t AutoRestartCb show ?thesis
      by (simp add: fireTimer_def)
  next
    case (SafetyCb r)
    have "keepsRestarts s (safetyCallback r (clearTimeout h s))"
      by (rule keeps_trans[OF keeps_clearTimeout keeps_safetyCallback])
    with tr Some t SafetyCb show ?thesis
      by (simp add: fireTimer_def keeps_tracked)
  qed
qed

lemma tracked_workletEnded: "restartsTracked s \<Longrightarrow> restartsTracked (workletEnded s)"
  by (simp add: workletEnded_def tracked_scheduleAutoRestart keeps_tracked)

lemma tracked_onstop: "restartsTracked s \<Longrightarrow> restartsTracked (onstop s)"
proof -
  assume tr: "restartsTracked s"
  have "keepsRestarts s (s \<lparr> chunksRef := [] \<rparr>)"
    by (simp add: keeps_fields)
  with tr have a: "restartsTracked (s \<lparr> chunksRef := [] \<rparr>)"
    by (rule keeps_tracked)
  show ?thesis
    unfolding onstop_def Let_def
    by (auto intro: tracked_scheduleAutoRestart[OF a] keeps_tracked[OF a])
qed

lemma endCall_begin_eq:
  "truthy (sessionId s) \<Longrightarrow>
   endCall_begin s =
     (stopListening (clearAudio (setIsProcessing True
        (effectCleanup (s \<lparr> isCallActiveRef := False \<rparr>)))))
       \<lparr> streamRef := None, analyserRef := False \<rparr>"
  by (simp add: endCall_begin_def effectCleanup_def Let_def)

lemma tracked_endCall_begin:
  "restartsTracked s \<Longrightarrow> restartsTracked (endCall_begin s)"
proof (cases "truthy (sessionId s)")
  case False
  assume "restartsTracked s"
  with False show ?thesis by (simp add: endCall_begin_def)
next
  case True
  assume tr: "restartsTracked s"
  let ?a = "s \<lparr> isCallActiveRef := False \<rparr>"
  let ?b = "effectCleanup ?a"
  let ?e = "stopListening (clearAudio (setIsProcessing True ?b))"
  have "keepsRestarts s ?a" by (simp add: keeps_fields)
  with tr have "restartsTracked ?a" by (rule keeps_tracked)
  then have b: "pendingRestarts ?b = [] \<and> autoRestartTimeoutRef ?b = None"
    by (rule tracked_effectCleanup)
  then have tb: "restartsTracked ?b" by (simp add: restartsTracked_def)
  have "keepsRestarts ?b ?e"
    by (blast intro: keeps_trans keeps_setIsProcessing keeps_clearAudio keeps_stopListening)
  moreover have "keepsRestarts ?e (?e \<lparr> streamRef := None, analyserRef := False \<rparr>)"
    by (simp add: keeps_fields)
  ultimately have "keepsRestarts ?b (?e \<lparr> streamRef := None, analyserRef := False \<rparr>)"
    by (rule keeps_trans)
  with tb have "restartsTracked (?e \<lparr> streamRef := None, analyserRef := False \<rparr>)"
    by (rule keeps_tracked)
  with True show ?thesis by (simp add: endCall_begin_eq)
qed

lemma cleared_endCall_begin:
  assumes "truthy (sessionId s)" and "restartsTracked s"
  shows "pendingRestarts (endCall_begin s) = [] \<and> autoRestartTimeoutRef (endCall_begin s) = None"
proof -
  let ?a = "s \<lparr> isCallActiveRef := False \<rparr>"
  let ?b = "effectCleanup ?a"
  let ?e = "stopListening (clearAudio (setIsProcessing True ?b))"
  have "keepsRestarts s ?a" by (simp add: keeps_fields)
  with assms(2) have "restartsTracked ?a" by (rule keeps_tracked)
  then have b: "pendingRestarts ?b = [] \<and> autoRestartTimeoutRef ?b = None"
    by (rule tracked_effectCleanup)
  have "keepsRestarts ?b ?e"
    by (blast intro: keeps_trans keeps_setIsProcessing keeps_clearAudio keeps_stopListening)
  moreover have "keepsRestarts ?e (?e \<lparr> streamRef := None, analyserRef := False \<rparr>)"
    by (simp add: keeps_fields)
  ultimately have "keepsRestarts ?b (?e \<lparr> streamRef := None, analyserRef := False \<rparr>)"
    by (rule keeps_trans)
  with b have "pendingRestarts (?e \<lparr> streamRef := None, analyserRef := False \<rparr>) = [] \<and>
      autoRestartTimeoutRef (?e \<lparr> streamRef := None, analyserRef := False \<rparr>) = None"
    by (simp add: keepsRestarts_def)
  with assms(1) show ?thesis by (simp add: endCall_begin_eq)
qed

lemma tracked_endCall_settle:
  "restartsTracked s \<Longrightarrow> restartsTracked (endCall_settle ok s)"
proof -
  assume tr: "restartsTracked s"
  have a: "keepsRestarts s (s \<lparr> toasts := x \<rparr>)" for x
    by (simp add: keeps_fields)
  have "keepsRestarts s (endCall_settle ok s)"
    unfolding endCall_settle_def
    by (cases ok) (auto intro!: keeps_step a)
  with tr show ?thesis by (rule keeps_tracked)
qed

lemma tracked_endCall: "restartsTracked s \<Longrightarrow> restartsTracked (endCall ok s)"
  by (simp add: endCall_def tracked_endCall_settle tracked_endCall_begin)

lemma handleEvent_tracked:
  "restartsTracked s \<Longrightarrow> handleEvent ok now ev (tr, s) = Inr (tr', s') \<Longrightarrow> restartsTracked s'"
proof (cases ev)
  case (Done e)
  assume tr: "restartsTracked s" and ev: "handleEvent ok now ev (tr, s) = Inr (tr', s')"
  let ?s1 = "signalAudioComplete s"
  let ?s2 = "if tr \<noteq> [] then ?s1 \<lparr> messages := messages ?s1 @
      [\<lparr> msg_role = Assistant, msg_content = tr, msg_timestamp = now \<rparr>] \<rparr> else ?s1"
  let ?s3 = "?s2 \<lparr> currentTranscript := [] \<rparr>"
  have "keepsRestarts ?s1 ?s2" by (simp add: keeps_fields)
  moreover have "keepsRestarts ?s2 ?s3" by (simp add: keeps_fields)
  ultimately have "keepsRestarts s ?s3"
    by (blast intro: keeps_trans keeps_signalAudioComplete)
  with tr have "restartsTracked ?s3" by (rule keeps_tracked)
  then have "restartsTracked (if e then endCall ok ?s3 else scheduleAutoRestart 500 ?s3)"
    by (simp add: tracked_endCall tracked_scheduleAutoRestart)
  with ev Done show ?thesis by (simp add: Let_def)
qed (auto simp: keeps_fields split: if_splits sum.splits dest!: playAudio_after
      intro: keeps_tracked keeps_playAudio)

lemma handleLine_tracked:
  "restartsTracked s \<Longrightarrow> restartsTracked (snd (handleLine ok now l (tr, s)))"
proof (cases "tryLine ok now l (tr, s)")
  case (Inl x)
  assume tr: "restartsTracked s"
  have "keepsRestarts s (s \<lparr> consoleErrors := y \<rparr>)" for y
    by (simp add: keeps_fields)
  with tr have "restartsTracked (s \<lparr> consoleErrors := y \<rparr>)" for y
    by (rule keeps_tracked)
  with Inl tr show ?thesis
    by (simp add: handleLine_def split: js_exn.splits)
next
  case (Inr st)
  assume tr: "restartsTracked s"
  obtain tr' s' where st: "st = (tr', s')" by (cases st)
  from Inr st tr have "restartsTracked s'"
    by (cases l) (auto simp: tryLine_def dest: handleEvent_tracked)
  with Inr st show ?thesis
    by (simp add: handleLine_def)
qed

lemma step_tracked: "restartsTracked s \<Longrightarrow> restartsTracked (step e s)"
proof (cases e)
  case (EvTurnEnd fails)
  assume tr: "restartsTracked s"
  have "keepsRestarts s (s \<lparr> toasts := y \<rparr>)" for y
    by (simp add: keeps_fields)
  then have "keepsRestarts s (step e s)"
    using EvTurnEnd by (auto intro: keeps_trans keeps_setIsProcessing)
  with tr show ?thesis by (rule keeps_tracked)
qed (auto simp: tracked_scheduleAutoRestart tracked_effectCleanup restartsTracked_def[of "effectCleanup s"]
       tracked_fireTimer tracked_onstop tracked_workletEnded handleLine_tracked
       tracked_endCall_begin tracked_endCall_settle intro: keeps_tracked)

lemma run_tracked: "restartsTracked s \<Longrightarrow> restartsTracked (run es s)"
  unfolding run_def by (induction es arbitrary: s) (simp_all add: step_tracked)

lemma mounted_tracked: "restartsTracked mounted"
  by (simp add: restartsTracked_def pendingRestarts_def mounted_def)

text \<open>So the pending auto-restarts are tracked in every state a call reaches.\<close>

lemma inCall_tracked: "restartsTracked (run es (inCall sid))"
  by (rule run_tracked) (simp add: restartsTracked_def pendingRestarts_def inCall_def mounted_def)

subsection \<open>Ending the call\<close>

lemma endCall_begin_effects:
  assumes "truthy (sessionId s)"
  shows "\<not> isCallActiveRef (endCall_begin s) \<and>
     \<not> isSpeaking (endCall_begin s) \<and> \<not> isSpeakingRef (endCall_begin s) \<and>
     workletPort (endCall_begin s) = (if workletRef s then workletPort s @ [ClearMsg] else workletPort s) \<and>
     \<not> isRecordingRef (endCall_begin s) \<and> \<not> isListening (endCall_begin s) \<and>
     (\<forall>r. mediaRecorderRef s = Some r \<longrightarrow> \<not> isRecording r (endCall_begin s))"
  using assms
  by (auto simp: endCall_begin_def clearTimeout_def setters clearAudio_def postMessage_def
      stopListening_def stopRecorder_def isRecording_def Let_def split: option.split)

text \<open>
  What \<^verbatim>\<open>endCall\<close> does cancel. Let it be called in a call with a session (a truthy
  \<^verbatim>\<open>sessionId\<close>), in a state in which the pending auto-restarts are the one the
  ref names (as in every state the callbacks reach). When it reaches its first
  \<^verbatim>\<open>await\<close>, the request for the summary, the call-active ref is false, no
  auto-restart timer is pending and the ref is cleared, a clear message has been
  posted to the playback worklet (when there is one) and speaking is false, the
  recording flag and the listening indicator are off and the current recorder is not
  recording. From then on, whatever events of the call follow (lines of a turn still
  in flight, playback ending, recorders stopping, restarts being scheduled, the user's
  toggles; starting a new call is not among them), the call-active ref stays false, and
  every auto-restart timer that fires is dropped: the state after it is the state
  before without the timer.
\<close>

lemma endCall_cancels:
  "truthy (sessionId s) \<and> restartsTracked s \<longrightarrow>
     \<not> isCallActiveRef (endCall_begin s) \<and>
     autoRestartTimeoutRef (endCall_begin s) = None \<and>
     pendingRestarts (endCall_begin s) = [] \<and>
     \<not> isSpeaking (endCall_begin s) \<and> \<not> isSpeakingRef (endCall_begin s) \<and>
     workletPort (endCall_begin s) =
       (if workletRef s then workletPort s @ [ClearMsg] else workletPort s) \<and>
     \<not> isRecordingRef (endCall_begin s) \<and> \<not> isListening (endCall_begin s) \<and>
     (\<forall>r. mediaRecorderRef s = Some r \<longrightarrow> \<not> isRecording r (endCall_begin s)) \<and>
     (\<forall>es. \<not> isCallActiveRef (run es (endCall_begin s)) \<and>
        (\<forall>h d. map_of (timers (run es (endCall_begin s))) h = Some (d, AutoRestartCb) \<longrightarrow>
           fireTimer h (run es (endCall_begin s)) =
             (clearTimeout h (run es (endCall_begin s))) \<lparr> autoRestartTimeoutRef := None \<rparr>))"
proof
  assume a: "truthy (sessionId s) \<and> restartsTracked s"
  then have t: "truthy (sessionId s)" and tr: "restartsTracked s" by simp_all
  note eff = endCall_begin_effects[OF t]
  note clr = cleared_endCall_begin[OF t tr]
  have off: "\<not> isCallActiveRef (run es (endCall_begin s))" for es
    using eff by (simp add: run_flag)
  have drop: "map_of (timers (run es (endCall_begin s))) h = Some (d, AutoRestartCb) \<Longrightarrow>
      fireTimer h (run es (endCall_begin s)) =
        (clearTimeout h (run es (endCall_begin s))) \<lparr> autoRestartTimeoutRef := None \<rparr>" for es h d
    using off[of es] by (simp add: fireTimer_restart restartGuards_def)
  from eff clr off drop
  show "\<not> isCallActiveRef (endCall_begin s) \<and>
     autoRestartTimeoutRef (endCall_begin s) = None \<and>
     pendingRestarts (endCall_begin s) = [] \<and>
     \<not> isSpeaking (endCall_begin s) \<and> \<not> isSpeakingRef (endCall_begin s) \<and>
     workletPort (endCall_begin s) =
       (if workletRef s then workletPort s @ [ClearMsg] else workletPort s) \<and>
     \<not> isRecordingRef (endCall_begin s) \<and> \<not> isListening (endCall_begin s) \<and>
     (\<forall>r. mediaRecorderRef s = Some r \<longrightarrow> \<not> isRecording r (endCall_begin s)) \<and>
     (\<forall>es. \<not> isCallActiveRef (run es (endCall_begin s)) \<and>
        (\<forall>h d. map_of (timers (run es (endCall_begin s))) h = Some (d, AutoRestartCb) \<longrightarrow>
           fireTimer h (run es (endCall_begin s)) =
             (clearTimeout h (run es (endCall_begin s))) \<lparr> autoRestartTimeoutRef := None \<rparr>))"
    by blast
qed

lemma callBusy_eval:
  "callBusy = (inCall 1) \<lparr> autoRestartTimeoutRef := Some 2, silenceTimeoutRef := Some 1,
      isRecordingRef := True, isListening := True, streamRef := Some 7, analyserRef := True,
      mediaRecorderRef := Some 0, recorders := [RecRecording],
      timers := [(1, 30000, SafetyCb 0), (2, 500, AutoRestartCb)], nextTimer := 2 \<rparr>"
  by (simp add: callBusy_def inCall_def mounted_def toggleMic_def startListening_def
      micGranted_def startRecorder_def setTimeout_def scheduleAutoRestart_def setters Let_def)

lemma endCall_cancels_witness:
  "truthy (sessionId callBusy) \<and> restartsTracked callBusy \<and>
   pendingRestarts callBusy = [2] \<and> isRecording 0 callBusy \<and>
   pendingRestarts (endCall_begin callBusy) = [] \<and>
   recorders (endCall_begin callBusy) = [RecInactive] \<and>
   workletPort (endCall_begin callBusy) = [ClearMsg] \<and>
   map_of (timers (run [EvLine True 0 ''hello'' (Parsed (Done False))] (endCall_begin callBusy))) 3
     = Some (500, AutoRestartCb) \<and>
   recorders (fireTimer 3 (run [EvLine True 0 ''hello'' (Parsed (Done False))]
     (endCall_begin callBusy))) = [RecInactive] \<and>
   awaitingMic (fireTimer 3 (run [EvLine True 0 ''hello'' (Parsed (Done False))]
     (endCall_begin callBusy))) = 0"
  using endCall_cancels[of callBusy]
  by (simp add: callBusy_eval inCall_def mounted_def truthy_def restartsTracked_def
      pendingRestarts_def isRecording_def endCall_begin_def clearTimeout_def setters
      clearAudio_def postMessage_def stopListening_def stopRecorder_def run_def
      handleLine_def tryLine_def signalAudioComplete_def scheduleAutoRestart_def
      setTimeout_def fireTimer_def autoRestartCallback_def restartGuards_def Let_def)

text \<open>
  Claim C4. \<^verbatim>\<open>endCall\<close> stops the recorder that \<^verbatim>\<open>mediaRecorderRef\<close> names and
  clears the safety timer that \<^verbatim>\<open>silenceTimeoutRef\<close> names, each the last one
  started. In the call of claim C2, in which two recorders are recording, there is a
  session, no auto-restart is pending, and \<^verbatim>\<open>endCall\<close> up to its first
  \<^verbatim>\<open>await\<close> switches the call-active ref off and stops recorder 1; recorder 0
  goes on recording and its safety timer stays pending. When that timer fires,
  recorder 0 stops, and the clip it hands to its \<^verbatim>\<open>onstop\<close> handler (5000 bytes
  here) is sent as a turn of the call that was ended.
\<close>

theorem endCall_leaves_session_open:
  "truthy (sessionId twoSessions) \<and>
   pendingRestarts twoSessions = [] \<and>
   recorders twoSessions = [RecRecording, RecRecording] \<and>
   mediaRecorderRef twoSessions = Some 1 \<and>
   \<not> isCallActiveRef (endCall_begin twoSessions) \<and>
   recorders (endCall_begin twoSessions) = [RecRecording, RecInactive] \<and>
   openSessions (endCall_begin twoSessions) = 1 \<and>
   timers (endCall_begin twoSessions) = [(1, 30000, SafetyCb 0)] \<and>
   recorders (fireTimer 1 (endCall_begin twoSessions)) = [RecInactive, RecInactive] \<and>
   inflight (endCall_begin twoSessions) = [] \<and>
   inflight (onstop (ondataavailable 5000 (fireTimer 1 (endCall_begin twoSessions)))) = [5000]"
  by (simp add: twoSessions_def inCall_def mounted_def truthy_def toggleMic_def
      startListening_def micGranted_def startRecorder_def setTimeout_def setters
      pendingRestarts_def openSessions_def endCall_begin_def clearAudio_def postMessage_def
      stopListening_def stopRecorder_def isRecording_def clearTimeout_def fireTimer_def
      safetyCallback_def onstop_def ondataavailable_def sendVoiceMessage_def Let_def)

subsection \<open>Starting capture\<close>

text \<open>The guard of \<^verbatim>\<open>startListening\<close>: the call changes nothing when it holds.\<close>

lemma startListening_guard:
  "isRecordingRef s \<or> isProcessing s \<or> isSpeaking s \<Longrightarrow> startListening s = s"
  by (simp add: startListening_def)

text \<open>
  Claim C2. The guard reads the recording flag, which \<^verbatim>\<open>startListening\<close> sets
  only after \<^verbatim>\<open>await getUserMedia\<close>. In a call that holds no microphone stream
  yet (as after \<^verbatim>\<open>startCall\<close> with the avatar transport), two presses of the
  microphone button before access is granted both pass the guard and both wait for
  the microphone. When access is granted each of them creates and starts a recorder:
  two recording sessions are open at once. \<^verbatim>\<open>stopListening\<close> then stops the
  current recorder only, and one session stays open.
\<close>

theorem overlapping_starts_two_sessions:
  "awaitingMic (toggleMic (toggleMic (inCall 1))) = 2 \<and>
   \<not> isRecordingRef (toggleMic (toggleMic (inCall 1))) \<and>
   recorders (micGranted 8 (micGranted 7 (toggleMic (toggleMic (inCall 1))))) =
     [RecRecording, RecRecording] \<and>
   openSessions (micGranted 8 (micGranted 7 (toggleMic (toggleMic (inCall 1))))) = 2 \<and>
   openSessions (stopListening (micGranted 8 (micGranted 7 (toggleMic (toggleMic (inCall 1)))))) = 1"
  by (simp add: inCall_def mounted_def toggleMic_def startListening_def micGranted_def
      startRecorder_def setTimeout_def setters openSessions_def stopListening_def
      stopRecorder_def isRecording_def clearTimeout_def Let_def)

section \<open>Properties of voice activity detection\<close>

lemma checkAudioLevel_quiet:
  "\<not> hasSpoken v \<Longrightarrow> \<not> average d > SILENCE_THRESHOLD \<Longrightarrow>
   checkAudioLevel now d (v, s) = (if isRecordingRef s then VadRescheduled else VadExit, v, s)"
  by (simp add: checkAudioLevel_def Let_def)

lemma vadLoop_quiet:
  "\<not> hasSpoken v \<Longrightarrow> \<forall>t \<in> set ticks. \<not> average (snd (snd t)) > SILENCE_THRESHOLD \<Longrightarrow>
   fst (vadLoop ticks (v, s)) \<noteq> VadSilenceStop \<and> fst (snd (vadLoop ticks (v, s))) = v"
proof (induction ticks arbitrary: s)
  case Nil
  then show ?case by simp
next
  case (Cons t ticks)
  obtain env now d where t: "t = (env, now, d)" by (cases t)
  from Cons.prems t have q: "\<not> average d > SILENCE_THRESHOLD" by simp
  from Cons.prems have rest: "\<forall>t \<in> set ticks. \<not> average (snd (snd t)) > SILENCE_THRESHOLD"
    by simp
  show ?case
    using Cons.IH[OF Cons.prems(1) rest, of "env s"]
    by (simp add: t checkAudioLevel_quiet[OF Cons.prems(1) q])
qed

text \<open>
  One detector loop. A detector loop starts with the has-spoken flag off
  (\<^verbatim>\<open>startListening\<close> starts a new loop with each recorder). A loop whose flag is
  off and whose readings never exceed the silence threshold never takes the silence
  stop, however many ticks it runs, whatever the time of each tick and whatever the
  other callbacks do to the state in between. So when a loop started with the flag off
  takes the silence stop, one of its readings exceeded the threshold. A tick that does
  not take the silence stop leaves the state as it was. The safety cutoff is
  independent of the loop: starting a recorder arms a timer of 30000 ms for it, and
  that timer's callback stops the recorder when it is still recording.
\<close>

lemma silence_needs_speech:
  "(startVoiceDetection now0 s0 = Some v \<longrightarrow> \<not> hasSpoken v) \<and>
   (\<not> hasSpoken v \<and> (\<forall>t \<in> set ticks. \<not> average (snd (snd t)) > SILENCE_THRESHOLD) \<longrightarrow>
      fst (vadLoop ticks (v, s)) \<noteq> VadSilenceStop) \<and>
   (\<not> hasSpoken v \<and> fst (vadLoop ticks (v, s)) = VadSilenceStop \<longrightarrow>
      (\<exists>t \<in> set ticks. average (snd (snd t)) > SILENCE_THRESHOLD)) \<and>
   (fst (checkAudioLevel now d (v, s)) \<noteq> VadSilenceStop \<longrightarrow>
      snd (snd (checkAudioLevel now d (v, s))) = s) \<and>
   (Suc (nextTimer s), 30000, SafetyCb (length (recorders s))) \<in> set (timers (startRecorder s)) \<and>
   (isRecording r s \<longrightarrow>
      \<not> isRecording r (safetyCallback r s) \<and> \<not> isRecordingRef (safetyCallback r s))"
proof -
  have a: "startVoiceDetection now0 s0 = Some v \<longrightarrow> \<not> hasSpoken v"
    by (auto simp: startVoiceDetection_def split: if_splits)
  have b: "\<not> hasSpoken v \<and> (\<forall>t \<in> set ticks. \<not> average (snd (snd t)) > SILENCE_THRESHOLD) \<longrightarrow>
      fst (vadLoop ticks (v, s)) \<noteq> VadSilenceStop"
    using vadLoop_quiet[of v ticks s] by blast
  have c: "fst (checkAudioLevel now d (v, s)) \<noteq> VadSilenceStop \<longrightarrow>
      snd (snd (checkAudioLevel now d (v, s))) = s"
    by (simp add: checkAudioLevel_def Let_def)
  have e: "(Suc (nextTimer s), 30000, SafetyCb (length (recorders s))) \<in> set (timers (startRecorder s))"
    by (simp add: startRecorder_def setTimeout_def setIsListening_def Let_def)
  have f: "isRecording r s \<longrightarrow>
      \<not> isRecording r (safetyCallback r s) \<and> \<not> isRecordingRef (safetyCallback r s)"
    by (simp add: safetyCallback_def isRecording_def stopRecorder_def setIsListening_def)
  from a b c e f show ?thesis by blast
qed

lemma silence_needs_speech_witness:
  "startVoiceDetection 0 recordingNow = Some \<lparr> lastSoundTime = 0, hasSpoken = False \<rparr> \<and>
   fst (vadLoop silentTicks (\<lparr> lastSoundTime = 0, hasSpoken = False \<rparr>, recordingNow)) = VadRescheduled \<and>
   recorders (snd (snd (vadLoop silentTicks (\<lparr> lastSoundTime = 0, hasSpoken = False \<rparr>, recordingNow)))) = [RecRecording] \<and>
   fst (vadLoop spokenTicks (\<lparr> lastSoundTime = 0, hasSpoken = False \<rparr>, recordingNow)) = VadSilenceStop \<and>
   recorders (snd (snd (vadLoop spokenTicks (\<lparr> lastSoundTime = 0, hasSpoken = False \<rparr>, recordingNow)))) = [RecInactive] \<and>
   average [40, 80, 90] > SILENCE_THRESHOLD \<and>
   isRecording 0 recordingNow \<and>
   recorders (fireTimer 1 recordingNow) = [RecInactive]"
  using silence_needs_speech[of 0 recordingNow "\<lparr> lastSoundTime = 0, hasSpoken = False \<rparr>" silentTicks recordingNow 0 "[3, 9, 12]" 0]
    silence_needs_speech[of 0 recordingNow "\<lparr> lastSoundTime = 0, hasSpoken = False \<rparr>" spokenTicks recordingNow 0 "[3, 9, 12]" 0]
  by (simp add: recordingNow_def silentTicks_def spokenTicks_def inCall_def mounted_def toggleMic_def
      startListening_def micGranted_def startRecorder_def setTimeout_def setters
      startVoiceDetection_def checkAudioLevel_def average_def SILENCE_THRESHOLD_def
      SILENCE_DURATION_def silenceStop_def isRecording_def stopRecorder_def fireTimer_def
      safetyCallback_def clearTimeout_def Let_def)

text \<open>
  Claim C3. The has-spoken flag belongs to a detector loop, not to a recording, and a
  loop ends only when it finds the recording flag off at one of its ticks (line 411).
  A loop whose recording is stopped and replaced by a new one between two of its ticks
  finds the flag on again and goes on, with its has-spoken flag still set. Here the
  caller speaks at 16 ms in the first recording; the microphone button is then pressed
  twice, which stops recorder 0 and starts recorder 1; at its next tick, at 5000 ms,
  the loop of the first recording reads silence and takes the silence stop, which
  stops recorder 1: a recording in which no reading exceeded the threshold.
\<close>

theorem stale_loop_stops_new_session:
  "startVoiceDetection 0 recordingNow = Some \<lparr> lastSoundTime = 0, hasSpoken = False \<rparr> \<and>
   recorders recordingNow = [RecRecording] \<and>
   recorders (toggleMic recordingNow) = [RecInactive] \<and>
   recorders (toggleMic (toggleMic recordingNow)) = [RecInactive, RecRecording] \<and>
   mediaRecorderRef (toggleMic (toggleMic recordingNow)) = Some 1 \<and>
   \<not> average [0, 0, 0] > SILENCE_THRESHOLD \<and>
   fst (vadLoop staleTicks (\<lparr> lastSoundTime = 0, hasSpoken = False \<rparr>, recordingNow))
     = VadSilenceStop \<and>
   recorders (snd (snd (vadLoop staleTicks
     (\<lparr> lastSoundTime = 0, hasSpoken = False \<rparr>, recordingNow)))) = [RecInactive, RecInactive]"
  by (simp add: recordingNow_def staleTicks_def inCall_def mounted_def toggleMic_def
      startListening_def stopListening_def micGranted_def startRecorder_def setTimeout_def
      setters startVoiceDetection_def checkAudioLevel_def average_def SILENCE_THRESHOLD_def
      SILENCE_DURATION_def silenceStop_def isRecording_def stopRecorder_def
      clearTimeout_def Let_def)

section \<open>Properties of the signal extractors\<close>

subsection \<open>extractPhoneNumber\<close>

text \<open>The tables of the specification are the classes of the regular expressions.\<close>

lemma in_table: "(c \<in> set L) = ((of_char c :: nat) \<in> set (map of_char L))"
  by auto

lemma digit_codes: "map of_char decimalDigits = [48..<58 :: nat]"
  by (simp add: decimalDigits_def)

lemma lower_codes: "map of_char lowerLetters = [97..<123 :: nat]"
  by (simp add: lowerLetters_def)

lemma upper_codes: "map of_char upperLetters = [65..<91 :: nat]"
  by (simp add: upperLetters_def)

lemma digit_table: "is_digit c = (c \<in> set decimalDigits)"
  unfolding in_table[of c decimalDigits] digit_codes set_upt
  by (auto simp: is_digit_def code_def)

lemma lower_letter_table: "(97 \<le> code c \<and> code c \<le> 122) = (c \<in> set lowerLetters)"
  unfolding in_table[of c lowerLetters] lower_codes set_upt
  by (auto simp: code_def)

lemma upper_letter_table: "(65 \<le> code c \<and> code c \<le> 90) = (c \<in> set upperLetters)"
  unfolding in_table[of c upperLetters] upper_codes set_upt
  by (auto simp: code_def)

lemma underscore_table: "(code c = 95) = (c = CHR ''_'')"
proof -
  have a: "of_char (CHR ''_'') = (95 :: nat)" by simp
  show ?thesis unfolding code_def a[symmetric] by (rule of_char_eq_iff)
qed

lemma word_table: "is_word_char c = (c \<in> set wordUnits)"
  using lower_letter_table[of c] upper_letter_table[of c] digit_table[of c] underscore_table[of c]
  by (auto simp: is_word_char_def is_letter_def wordUnits_def)

lemma separator_codes:
  "map of_char separatorUnits = [9, 10, 11, 12, 13, 32, 160, 45, 40, 41, 46, 44 :: nat]"
  by (simp add: separatorUnits_def)

lemma separator_table: "is_separator c = (c \<in> set separatorUnits)"
proof -
  have "is_separator c = ((of_char c :: nat) \<in> set [9, 10, 11, 12, 13, 32, 160, 45, 40, 41, 46, 44])"
  proof -
    have "(c \<in> set ''-().,'') = ((of_char c :: nat) \<in> set (map of_char ''-().,''))"
      by (rule in_table)
    then show ?thesis
      by (auto simp: is_separator_def is_space_def code_def)
  qed
  then show ?thesis
    unfolding in_table[of c separatorUnits] separator_codes .
qed

lemma code_char_of: "n < 256 \<Longrightarrow> code (char_of n) = n"
  by (simp add: code_def)

lemma code_less: "code c < 256"
  by (simp add: code_def)

text \<open>The three ways of \<open>toLowerChar\<close>.\<close>

lemma toLowerChar_cases:
  obtains (ascii) "65 \<le> code c" "code c \<le> 90" "code (toLowerChar c) = code c + 32"
  | (latin) "192 \<le> code c" "code c \<le> 222" "code (toLowerChar c) = code c + 32"
  | (same) "\<not> (65 \<le> code c \<and> code c \<le> 90)" "toLowerChar c = c"
proof (cases "65 \<le> code c \<and> code c \<le> 90")
  case True
  then have "toLowerChar c = char_of (code c + 32)" by (simp add: toLowerChar_def)
  moreover have "code (char_of (code c + 32)) = code c + 32"
    using True by (intro code_char_of) simp
  ultimately show ?thesis using True ascii by simp
next
  case False
  show ?thesis
  proof (cases "192 \<le> code c \<and> code c \<le> 222 \<and> code c \<noteq> 215")
    case True
    then have "toLowerChar c = char_of (code c + 32)" by (simp add: toLowerChar_def)
    moreover have "code (char_of (code c + 32)) = code c + 32"
      using True by (intro code_char_of) simp
    ultimately show ?thesis using True latin by simp
  next
    case no: False
    with False have "toLowerChar c = c" by (auto simp: toLowerChar_def)
    with False same show ?thesis by simp
  qed
qed

lemma lowerLetter_codes:
  "map (\<lambda>c. code (lowerLetter c)) upperLetters = map (\<lambda>c. code c + 32) upperLetters"
  by (simp add: upperLetters_def lowerLetters_def lowerLetter_def code_def)

lemma upper_lower: "c \<in> set upperLetters \<Longrightarrow> toLowerChar c = lowerLetter c"
proof -
  assume u: "c \<in> set upperLetters"
  have "\<forall>x\<in>set upperLetters. code (lowerLetter x) = code x + 32"
    using lowerLetter_codes by (simp only: map_eq_conv)
  with u have "code (lowerLetter c) = code c + 32" by blast
  moreover from u have "65 \<le> code c \<and> code c \<le> 90" by (simp add: upper_letter_table)
  then have "code (toLowerChar c) = code c + 32"
    by (cases c rule: toLowerChar_cases) simp_all
  ultimately have "code (toLowerChar c) = code (lowerLetter c)" by simp
  then show ?thesis unfolding code_def by (simp only: of_char_eq_iff)
qed

lemma not_upper_lowerLetter: "c \<notin> set upperLetters \<Longrightarrow> lowerLetter c = c"
proof -
  assume "c \<notin> set upperLetters"
  then have "map_of (zip upperLetters lowerLetters) c = None"
    by (simp add: map_of_eq_None_iff upperLetters_def lowerLetters_def)
  then show ?thesis by (simp add: lowerLetter_def)
qed

lemma word_lower: "is_word_char c \<Longrightarrow> toLowerChar c = lowerLetter c"
proof (cases "c \<in> set upperLetters")
  case True
  then show ?thesis by (rule upper_lower)
next
  case False
  assume w: "is_word_char c"
  from False have nu: "\<not> (65 \<le> code c \<and> code c \<le> 90)" by (simp add: upper_letter_table)
  from w have "code c \<le> 122"
    by (auto simp: is_word_char_def is_letter_def is_digit_def)
  with nu have "toLowerChar c = c" by (auto simp: toLowerChar_def)
  with False show ?thesis by (simp add: not_upper_lowerLetter)
qed

lemma lower_keeps_word: "is_word_char (toLowerChar c) = is_word_char c"
proof (cases c rule: toLowerChar_cases)
  case ascii
  then show ?thesis by (simp add: is_word_char_def is_letter_def)
next
  case latin
  then show ?thesis by (simp add: is_word_char_def is_letter_def is_digit_def)
next
  case same
  then show ?thesis by simp
qed

lemma lower_keeps_digit: "is_digit (toLowerChar c) = is_digit c"
proof (cases c rule: toLowerChar_cases)
  case ascii
  then show ?thesis by (simp add: is_digit_def)
next
  case latin
  then show ?thesis by (simp add: is_digit_def)
next
  case same
  then show ?thesis by simp
qed

lemma lower_fixes_digit: "is_digit c \<Longrightarrow> toLowerChar c = c"
  by (simp add: toLowerChar_def is_digit_def)

lemma separator_codes_iff:
  "is_separator c = (code c \<in> set [9, 10, 11, 12, 13, 32, 160, 45, 40, 41, 46, 44])"
  unfolding separator_table in_table[of c separatorUnits] separator_codes code_def ..

lemma lower_keeps_separator: "is_separator (toLowerChar c) = is_separator c"
proof (cases c rule: toLowerChar_cases)
  case ascii
  then show ?thesis unfolding separator_codes_iff by simp
next
  case latin
  then show ?thesis unfolding separator_codes_iff by simp
next
  case same
  then show ?thesis by simp
qed

text \<open>The functions of the specification, with the classes in place of the tables.\<close>

lemma word_pred: "(\<lambda>x. x \<in> set wordUnits) = is_word_char"
  by (rule ext) (simp add: word_table)

lemma digit_pred: "(\<lambda>x. x \<in> set decimalDigits) = is_digit"
  by (rule ext) (simp add: digit_table)

lemma separator_pred: "(\<lambda>c. c \<notin> set separatorUnits) = (\<lambda>c. \<not> is_separator c)"
  by (rule ext) (simp add: separator_table)

lemma tokens_Cons:
  "tokens (c # cs) =
     (if is_word_char c then takeWhile is_word_char (c # cs) # tokens (dropWhile is_word_char cs)
      else [c] # tokens cs)"
  unfolding word_table[of c] word_pred[symmetric] by (rule tokens.simps)

declare tokens.simps(2) [simp del]

lemma tokens_induct:
  assumes "P []"
    and "\<And>c cs. (is_word_char c \<Longrightarrow> P (dropWhile is_word_char cs)) \<Longrightarrow>
           (\<not> is_word_char c \<Longrightarrow> P cs) \<Longrightarrow> P (c # cs)"
  shows "P s"
proof (induction s rule: tokens.induct)
  case 1
  show ?case by (rule assms(1))
next
  case (2 c cs)
  show ?case
  proof (rule assms(2))
    assume "is_word_char c"
    then have "c \<in> set wordUnits" by (simp add: word_table)
    then have "P (dropWhile (\<lambda>x. x \<in> set wordUnits) cs)" by (rule 2(1))
    then show "P (dropWhile is_word_char cs)" by (simp only: word_pred)
  next
    assume "\<not> is_word_char c"
    then have "c \<notin> set wordUnits" by (simp add: word_table)
    then show "P cs" by (rule 2(2))
  qed
qed

lemma digitRuns_Cons:
  "digitRuns (c # cs) =
     (if is_digit c then takeWhile is_digit (c # cs) # digitRuns (dropWhile is_digit cs)
      else digitRuns cs)"
  unfolding digit_table[of c] digit_pred[symmetric] by (rule digitRuns.simps)

declare digitRuns.simps(2) [simp del]

lemma digitRuns_induct:
  assumes "P []"
    and "\<And>c cs. (is_digit c \<Longrightarrow> P (dropWhile is_digit cs)) \<Longrightarrow>
           (\<not> is_digit c \<Longrightarrow> P cs) \<Longrightarrow> P (c # cs)"
  shows "P s"
proof (induction s rule: digitRuns.induct)
  case 1
  show ?case by (rule assms(1))
next
  case (2 c cs)
  show ?case
  proof (rule assms(2))
    assume "is_digit c"
    then have "c \<in> set decimalDigits" by (simp add: digit_table)
    then have "P (dropWhile (\<lambda>x. x \<in> set decimalDigits) cs)" by (rule 2(1))
    then show "P (dropWhile is_digit cs)" by (simp only: digit_pred)
  next
    assume "\<not> is_digit c"
    then have "c \<notin> set decimalDigits" by (simp add: digit_table)
    then show "P cs" by (rule 2(2))
  qed
qed

text \<open>
  One replacement, token by token. A word to replace is not empty and made of word
  characters, as all the number words are.
\<close>

lemma no_match_inside_word:
  "is_word_char c \<Longrightarrow> \<not> wordAt w True (c # cs)"
  by (simp add: wordAt_def wordBoundary_def startsWord_def)

lemma no_match_at_other:
  assumes "w \<noteq> []" "\<forall>x \<in> set w. is_word_char x" "\<not> is_word_char c"
  shows "\<not> wordAt w prev (c # cs)"
proof
  assume "wordAt w prev (c # cs)"
  then have t: "take (length w) (c # cs) = w" by (simp add: wordAt_def)
  from assms(1) obtain x xs where w: "w = x # xs" by (cases w) auto
  with t have "x = c" by simp
  with w assms(2,3) show False by simp
qed

lemma replaceWord_word_run:
  "\<forall>x \<in> set u. is_word_char x \<Longrightarrow> replaceWord w d True (u @ rest) = u @ replaceWord w d True rest"
proof (induction u)
  case Nil
  show ?case by simp
next
  case (Cons c u)
  then have "\<not> wordAt w True (c # u @ rest)" by (intro no_match_inside_word) simp
  with Cons show ?case by simp
qed

lemma replaceWord_prev:
  assumes "w \<noteq> []" "\<forall>x \<in> set w. is_word_char x" "\<not> startsWord rest"
  shows "replaceWord w d True rest = replaceWord w d False rest"
proof (cases rest)
  case Nil
  then show ?thesis by simp
next
  case (Cons c cs)
  with assms(3) have "\<not> is_word_char c" by (simp add: startsWord_def)
  then have "\<not> wordAt w True (c # cs)" "\<not> wordAt w False (c # cs)"
    using assms(1,2) by (simp_all add: no_match_at_other)
  with Cons show ?thesis by simp
qed

lemma startsWord_dropWhile: "\<not> startsWord (dropWhile is_word_char s)"
proof (cases "dropWhile is_word_char s")
  case Nil
  show ?thesis unfolding Nil by (simp add: startsWord_def)
next
  case (Cons c cs)
  then have "\<not> is_word_char c" by (metis hd_dropWhile list.sel(1) list.distinct(1))
  with Cons show ?thesis by (simp add: startsWord_def)
qed

lemma takeWhile_run:
  assumes "\<forall>x \<in> set w. is_word_char x" "\<not> startsWord rest"
  shows "takeWhile is_word_char (w @ rest) = w"
proof -
  have "takeWhile is_word_char rest = []"
    using assms(2) by (cases rest) (simp_all add: startsWord_def)
  with assms(1) show ?thesis by (simp add: takeWhile_append2)
qed

lemma wordAt_run:
  assumes "w \<noteq> []" "\<forall>x \<in> set w. is_word_char x" "is_word_char c"
  shows "wordAt w False (c # cs) = (takeWhile is_word_char (c # cs) = w)"
proof
  assume m: "wordAt w False (c # cs)"
  then have t: "take (length w) (c # cs) = w"
    and r: "\<not> startsWord (drop (length w) (c # cs))"
    using assms(1,2) by (simp_all add: wordAt_def wordBoundary_def)
  have "c # cs = take (length w) (c # cs) @ drop (length w) (c # cs)" by simp
  with t have "c # cs = w @ drop (length w) (c # cs)" by simp
  then have "takeWhile is_word_char (c # cs) = takeWhile is_word_char (w @ drop (length w) (c # cs))"
    by simp
  also have "\<dots> = w" using assms(2) r by (rule takeWhile_run)
  finally show "takeWhile is_word_char (c # cs) = w" .
next
  assume run: "takeWhile is_word_char (c # cs) = w"
  have s: "c # cs = w @ dropWhile is_word_char (c # cs)"
    using run takeWhile_dropWhile_id[of is_word_char "c # cs"] by simp
  then have "take (length w) (c # cs) = w"
    by (metis append_eq_conv_conj)
  moreover from s have "drop (length w) (c # cs) = dropWhile is_word_char (c # cs)"
    by (metis append_eq_conv_conj)
  then have "\<not> startsWord (drop (length w) (c # cs))" by (simp only: startsWord_dropWhile not_False_eq_True)
  ultimately show "wordAt w False (c # cs)"
    using assms by (simp add: wordAt_def wordBoundary_def startsWord_def)
qed

lemma replaceWord_tokens:
  assumes "w \<noteq> []" "\<forall>x \<in> set w. is_word_char x"
  shows "replaceWord w d False s = concat (map (replaceToken w d) (tokens s))"
proof (induction s rule: tokens_induct)
  case 1
  show ?case by simp
next
  case (2 c cs)
  show ?case
  proof (cases "is_word_char c")
    case False
    then have "\<not> wordAt w False (c # cs)" using assms by (simp add: no_match_at_other)
    moreover have "[c] \<noteq> w" using assms False by auto
    ultimately show ?thesis using False 2(2)
      by (simp add: tokens_Cons replaceToken_def)
  next
    case True
    let ?run = "takeWhile is_word_char (c # cs)"
    let ?rest = "dropWhile is_word_char cs"
    have run: "?run = c # takeWhile is_word_char cs" using True by simp
    have cs: "cs = takeWhile is_word_char cs @ ?rest" by simp
    have rest: "\<not> startsWord ?rest" by (rule startsWord_dropWhile)
    have ih: "replaceWord w d False ?rest = concat (map (replaceToken w d) (tokens ?rest))"
      using True by (rule 2(1))
    have resume: "replaceWord w d True ?rest = replaceWord w d False ?rest"
      using assms rest by (rule replaceWord_prev)
    have "replaceWord w d False (c # cs) = replaceToken w d ?run @ replaceWord w d False ?rest"
    proof (cases "?run = w")
      case same: True
      then have m: "wordAt w False (c # cs)" by (simp only: wordAt_run[OF assms True])
      from same run have "length w - 1 = length (takeWhile is_word_char cs)" by auto
      then have "drop (length w - 1) cs = ?rest"
        by (metis append_eq_conv_conj cs)
      moreover have "is_word_char (last w)" using assms by simp
      ultimately have "replaceWord w d False (c # cs) = d @ replaceWord w d True ?rest"
        using m by simp
      with resume same show ?thesis by (simp add: replaceToken_def del: takeWhile.simps)
    next
      case other: False
      then have m: "\<not> wordAt w False (c # cs)"
        by (simp only: wordAt_run[OF assms True] not_False_eq_True)
      then have "replaceWord w d False (c # cs) = c # replaceWord w d True cs"
        using True by simp
      also have "replaceWord w d True cs
          = takeWhile is_word_char cs @ replaceWord w d True ?rest"
      proof -
        have "replaceWord w d True (takeWhile is_word_char cs @ ?rest)
            = takeWhile is_word_char cs @ replaceWord w d True ?rest"
          by (rule replaceWord_word_run) (auto dest: set_takeWhileD)
        then show ?thesis by simp
      qed
      finally show ?thesis using resume other run by (simp add: replaceToken_def)
    qed
    with ih True show ?thesis by (simp add: tokens_Cons del: takeWhile.simps)
  qed
qed

text \<open>
  A replacement that sends words to words and leaves the other tokens alone keeps
  the tokens apart, so the next replacement sees the same tokens.
\<close>

lemma tokens_head_other:
  "\<not> startsWord s \<Longrightarrow> (\<And>c. \<not> is_word_char c \<Longrightarrow> f [c] = [c]) \<Longrightarrow>
   \<not> startsWord (concat (map f (tokens s)))"
proof (cases s)
  case Nil
  then show ?thesis by (simp add: startsWord_def)
next
  case (Cons c cs)
  assume "\<not> startsWord s" and f: "\<And>c. \<not> is_word_char c \<Longrightarrow> f [c] = [c]"
  with Cons have "\<not> is_word_char c" by (simp add: startsWord_def)
  with Cons f show ?thesis by (simp add: tokens_Cons startsWord_def)
qed

lemma tokens_run:
  assumes "wordy u" "\<not> startsWord rest"
  shows "tokens (u @ rest) = u # tokens rest"
proof -
  from assms(1) obtain c cs where u: "u = c # cs" and c: "is_word_char c"
    and all: "\<forall>x \<in> set u. is_word_char x"
    by (cases u) (auto simp: wordy_def)
  have t: "takeWhile is_word_char (u @ rest) = u" using all assms(2) by (rule takeWhile_run)
  have "dropWhile is_word_char (u @ rest) = rest"
    using t takeWhile_dropWhile_id[of is_word_char "u @ rest"]
    by (metis same_append_eq)
  moreover have "dropWhile is_word_char (u @ rest) = dropWhile is_word_char (cs @ rest)"
    using u c by simp
  ultimately have d: "dropWhile is_word_char (cs @ rest) = rest" by simp
  have "tokens (c # cs @ rest)
      = takeWhile is_word_char (c # cs @ rest) # tokens (dropWhile is_word_char (cs @ rest))"
    using c by (simp only: tokens_Cons if_True)
  with t d u show ?thesis by simp
qed

lemma tokens_kept:
  assumes w: "\<And>t. wordy t \<Longrightarrow> wordy (f t)"
    and o: "\<And>c. \<not> is_word_char c \<Longrightarrow> f [c] = [c]"
  shows "tokens (concat (map f (tokens s))) = map f (tokens s)"
proof (induction s rule: tokens_induct)
  case 1
  show ?case by simp
next
  case (2 c cs)
  show ?case
  proof (cases "is_word_char c")
    case False
    with 2(2) o show ?thesis by (simp add: tokens_Cons)
  next
    case True
    let ?run = "takeWhile is_word_char (c # cs)"
    let ?rest = "dropWhile is_word_char cs"
    have "wordy ?run" using True by (auto simp: wordy_def dest: set_takeWhileD)
    then have "wordy (f ?run)" by (rule w)
    moreover have "\<not> startsWord (concat (map f (tokens ?rest)))"
      using startsWord_dropWhile o by (rule tokens_head_other)
    ultimately have "tokens (f ?run @ concat (map f (tokens ?rest)))
        = f ?run # tokens (concat (map f (tokens ?rest)))"
      by (rule tokens_run)
    with 2(1)[OF True] True show ?thesis by (simp add: tokens_Cons del: takeWhile.simps)
  qed
qed

lemma replaceToken_wordy: "wordy d \<Longrightarrow> wordy t \<Longrightarrow> wordy (replaceToken w d t)"
  by (simp add: replaceToken_def)

lemma replaceToken_other: "wordy w \<Longrightarrow> \<not> is_word_char c \<Longrightarrow> replaceToken w d [c] = [c]"
  by (auto simp: replaceToken_def wordy_def)

text \<open>All the replacements, token by token.\<close>

lemma fold_replaceWord_tokens:
  "\<forall>e \<in> set es. wordy (fst e) \<and> wordy (snd e) \<Longrightarrow>
   fold (\<lambda>entry normalized. replaceWord (fst entry) (snd entry) False normalized) es s
     = concat (map (fold (\<lambda>entry. replaceToken (fst entry) (snd entry)) es) (tokens s))"
proof (induction es arbitrary: s)
  case Nil
  have "concat (tokens s) = s"
  proof (induction s rule: tokens_induct)
    case 1
    show ?case by simp
  next
    case (2 c cs)
    then show ?case by (cases "is_word_char c") (simp_all add: tokens_Cons)
  qed
  then show ?case by simp
next
  case (Cons e es)
  then have e: "wordy (fst e)" "wordy (snd e)"
    and es: "\<forall>e \<in> set es. wordy (fst e) \<and> wordy (snd e)"
    by simp_all
  let ?f = "replaceToken (fst e) (snd e)"
  have one: "replaceWord (fst e) (snd e) False s = concat (map ?f (tokens s))"
    using e(1) by (intro replaceWord_tokens) (simp_all add: wordy_def)
  have kept: "tokens (concat (map ?f (tokens s))) = map ?f (tokens s)"
    using e by (intro tokens_kept) (simp_all add: replaceToken_wordy replaceToken_other)
  show ?case
    by (simp add: one Cons.IH[OF es] kept comp_def)
qed

lemma fold_replaceToken_miss:
  "tok \<notin> fst ` set es \<Longrightarrow> fold (\<lambda>entry. replaceToken (fst entry) (snd entry)) es tok = tok"
  by (induction es) (auto simp: replaceToken_def)

lemma replaceToken_same: "replaceToken w d w = d"
  by (simp add: replaceToken_def)

lemma replaceToken_miss: "tok \<noteq> w \<Longrightarrow> replaceToken w d tok = tok"
  by (simp add: replaceToken_def)

lemma fold_replaceToken:
  "\<forall>e \<in> set es. snd e \<notin> fst ` set es \<Longrightarrow>
   fold (\<lambda>entry. replaceToken (fst entry) (snd entry)) es tok
     = (case map_of es tok of Some d \<Rightarrow> d | None \<Rightarrow> tok)"
proof (induction es)
  case Nil
  show ?case by simp
next
  case (Cons e es)
  obtain w d where e: "e = (w, d)" by (cases e)
  from Cons.prems e have d: "d \<notin> fst ` set es" and es: "\<forall>e \<in> set es. snd e \<notin> fst ` set es"
    by auto
  show ?case
  proof (cases "tok = w")
    case True
    with e d show ?thesis by (simp add: replaceToken_same fold_replaceToken_miss)
  next
    case False
    with e Cons.IH[OF es] show ?thesis by (simp add: replaceToken_miss)
  qed
qed

lemma numberWords_wordy: "\<forall>e \<in> set numberWords. wordy (fst e) \<and> wordy (snd e)"
  by (simp add: numberWords_def wordy_def is_word_char_def is_letter_def is_digit_def code_def)

lemma numberWords_apart: "\<forall>e \<in> set numberWords. snd e \<notin> fst ` set numberWords"
  by (simp add: numberWords_def)

lemma numberWords_digits: "map_of numberWords k = Some d \<Longrightarrow> \<forall>c \<in> set d. is_digit c"
  by (auto simp: numberWords_def is_digit_def code_def split: if_splits)

lemma numberWords_keys: "map_of numberWords k = Some d \<Longrightarrow> wordy k"
proof -
  assume "map_of numberWords k = Some d"
  then have "(k, d) \<in> set numberWords" by (rule map_of_SomeD)
  with numberWords_wordy show ?thesis by fastforce
qed

lemma normalizeWords_tokens:
  "normalizeWords text =
     concat (map (\<lambda>tok. case map_of numberWords tok of Some d \<Rightarrow> d | None \<Rightarrow> tok)
       (tokens (toLowerCase text)))"
proof -
  have "fold (\<lambda>entry. replaceToken (fst entry) (snd entry)) numberWords
      = (\<lambda>tok. case map_of numberWords tok of Some d \<Rightarrow> d | None \<Rightarrow> tok)"
    by (rule ext) (rule fold_replaceToken[OF numberWords_apart])
  then show ?thesis
    unfolding normalizeWords_def by (simp only: fold_replaceWord_tokens[OF numberWords_wordy])
qed

text \<open>Lowering the capitals keeps the tokens, the digits and the separators.\<close>

lemma tokens_lower: "tokens (toLowerCase s) = map toLowerCase (tokens s)"
  unfolding toLowerCase_def
proof (induction s rule: tokens_induct)
  case 1
  show ?case by simp
next
  case (2 c cs)
  have p: "is_word_char \<circ> toLowerChar = is_word_char"
    by (rule ext) (simp add: lower_keeps_word)
  show ?case
  proof (cases "is_word_char c")
    case True
    with 2(1) show ?thesis
      by (simp add: tokens_Cons lower_keeps_word takeWhile_map dropWhile_map p)
  next
    case False
    with 2(2) show ?thesis by (simp add: tokens_Cons lower_keeps_word)
  qed
qed

lemma tokens_shape: "tok \<in> set (tokens s) \<Longrightarrow> wordy tok \<or> (\<exists>c. tok = [c] \<and> \<not> is_word_char c)"
proof (induction s rule: tokens_induct)
  case 1
  then show ?case by simp
next
  case (2 c cs)
  show ?case
  proof (cases "is_word_char c")
    case True
    have "wordy (takeWhile is_word_char (c # cs))"
      using True by (auto simp: wordy_def dest: set_takeWhileD)
    with 2(1)[OF True] 2(3) True show ?thesis
      by (auto simp: tokens_Cons simp del: takeWhile.simps)
  next
    case False
    with 2(2) 2(3) show ?thesis by (auto simp: tokens_Cons)
  qed
qed

lemma lower_token:
  assumes "tok \<in> set (tokens s)"
  shows "(case map_of numberWords (toLowerCase tok) of Some d \<Rightarrow> d | None \<Rightarrow> toLowerCase tok)
     = toLowerCase (case spokenDigit tok of Some d \<Rightarrow> d | None \<Rightarrow> tok)"
proof -
  have same: "map_of numberWords (toLowerCase tok) = spokenDigit tok"
  proof -
    from assms consider "wordy tok" | c where "tok = [c]" "\<not> is_word_char c"
      using tokens_shape by blast
    then show ?thesis
    proof cases
      case 1
      then have "map toLowerChar tok = map lowerLetter tok"
        by (simp add: wordy_def word_lower)
      then show ?thesis by (simp only: spokenDigit_def toLowerCase_def)
    next
      case 2
      have "\<not> wordy [toLowerChar c]" using 2(2) by (simp add: wordy_def lower_keeps_word)
      then have a: "map_of numberWords [toLowerChar c] = None"
        using numberWords_keys by (cases "map_of numberWords [toLowerChar c]") auto
      have "c \<notin> set upperLetters"
        using 2(2) upper_letter_table[of c] by (auto simp: is_word_char_def is_letter_def)
      then have l: "lowerLetter c = c" by (rule not_upper_lowerLetter)
      have "\<not> wordy [c]" using 2(2) by (simp add: wordy_def)
      then have "map_of numberWords [c] = None"
        using numberWords_keys by (cases "map_of numberWords [c]") auto
      with a l 2(1) show ?thesis by (simp add: spokenDigit_def toLowerCase_def)
    qed
  qed
  show ?thesis
  proof (cases "spokenDigit tok")
    case None
    with same show ?thesis by simp
  next
    case (Some d)
    then have "\<forall>c \<in> set d. is_digit c" unfolding spokenDigit_def by (rule numberWords_digits)
    then have "map toLowerChar d = d" by (simp add: map_idI lower_fixes_digit)
    with same Some show ?thesis by (simp add: toLowerCase_def)
  qed
qed

lemma normalizeWords_spokenForm: "normalizeWords text = toLowerCase (spokenForm text)"
proof -
  have "normalizeWords text =
      concat (map (\<lambda>tok. case map_of numberWords (toLowerCase tok) of Some d \<Rightarrow> d
                          | None \<Rightarrow> toLowerCase tok) (tokens text))"
    by (simp add: normalizeWords_tokens tokens_lower comp_def)
  also have "\<dots> = concat (map (\<lambda>tok. toLowerCase (case spokenDigit tok of Some d \<Rightarrow> d | None \<Rightarrow> tok))
      (tokens text))"
    by (rule arg_cong[where f = concat], rule map_cong) (simp_all add: lower_token)
  also have "\<dots> = toLowerCase (spokenForm text)"
    by (simp add: spokenForm_def toLowerCase_def map_concat comp_def)
  finally show ?thesis .
qed

lemma stripSeparators_lower: "stripSeparators (toLowerCase s) = toLowerCase (stripSeparators s)"
  by (simp add: stripSeparators_def toLowerCase_def filter_map comp_def lower_keeps_separator)

lemma digitRuns_lower: "digitRuns (toLowerCase s) = digitRuns s"
  unfolding toLowerCase_def
proof (induction s rule: digitRuns_induct)
  case 1
  show ?case by simp
next
  case (2 c cs)
  have p: "is_digit \<circ> toLowerChar = is_digit"
    by (rule ext) (simp add: lower_keeps_digit)
  have t: "map toLowerChar (takeWhile is_digit cs) = takeWhile is_digit cs"
    by (rule map_idI) (auto dest!: set_takeWhileD simp: lower_fixes_digit)
  show ?case
  proof (cases "is_digit c")
    case True
    with 2(1) show ?thesis
      by (simp add: digitRuns_Cons lower_keeps_digit lower_fixes_digit takeWhile_map
          dropWhile_map p t)
  next
    case False
    with 2(2) show ?thesis by (simp add: digitRuns_Cons lower_keeps_digit)
  qed
qed

lemma lastTen_slice: "sliceLast 10 r = lastTen r"
  by (simp add: sliceLast_def lastTen_def take_rev)

text \<open>The first search finds the first long run.\<close>

lemma short_run_skipped:
  "length (takeWhile is_digit s) < 10 \<Longrightarrow> matchDigits10 s = matchDigits10 (dropWhile is_digit s)"
proof (induction s)
  case Nil
  then show ?case by simp
next
  case (Cons c cs)
  show ?case
  proof (cases "is_digit c")
    case True
    with Cons.prems have "length (takeWhile is_digit cs) < 10" by simp
    then have "matchDigits10 cs = matchDigits10 (dropWhile is_digit cs)" by (rule Cons.IH)
    with True Cons.prems show ?thesis by (simp add: Let_def)
  next
    case False
    then show ?thesis by simp
  qed
qed

lemma matchDigits10_firstLongRun: "matchDigits10 s = firstLongRun s"
  unfolding firstLongRun_def
proof (induction s rule: digitRuns_induct)
  case 1
  show ?case by simp
next
  case (2 c cs)
  show ?case
  proof (cases "is_digit c")
    case False
    with 2 show ?thesis by (simp add: Let_def digitRuns_Cons)
  next
    case True
    show ?thesis
    proof (cases "10 \<le> length (takeWhile is_digit (c # cs))")
      case long: True
      with True show ?thesis by (simp add: Let_def digitRuns_Cons)
    next
      case short: False
      then have "matchDigits10 (c # cs) = matchDigits10 (dropWhile is_digit (c # cs))"
        by (intro short_run_skipped) simp
      with True short 2(1)[OF True] show ?thesis by (simp add: digitRuns_Cons)
    qed
  qed
qed

lemma digitGroups_prefix: "\<exists>post. s = digitGroups s @ post"
proof (induction s rule: digitGroups.induct)
  case 1
  show ?case by simp
next
  case (2 c cs)
  show ?case
  proof (cases "is_digit c")
    case True
    from 2[OF True] obtain post where
      "dropWhile is_space cs = digitGroups (dropWhile is_space cs) @ post" ..
    then have "cs = takeWhile is_space cs @ digitGroups (dropWhile is_space cs) @ post"
      by (metis takeWhile_dropWhile_id)
    then have "c # cs = digitGroups (c # cs) @ post"
      using True by (simp del: takeWhile_dropWhile_id)
    then show ?thesis ..
  next
    case False
    then show ?thesis by simp
  qed
qed

lemma digitGroups_chars: "c \<in> set (digitGroups s) \<Longrightarrow> is_digit c \<or> is_space c"
proof (induction s rule: digitGroups.induct)
  case 1
  then show ?case by simp
next
  case (2 d cs)
  then show ?case
    by (cases "is_digit d") (auto dest: set_takeWhileD)
qed

lemma digit_not_separator: "is_digit c \<Longrightarrow> \<not> is_separator c"
  by (auto simp: is_digit_def is_separator_def is_space_def code_def)

lemma space_separator: "is_space c \<Longrightarrow> is_separator c \<and> \<not> is_digit c"
  by (auto simp: is_digit_def is_separator_def is_space_def)

lemma strip_digitGroups: "stripSeparators (digitGroups s) = filter is_digit (digitGroups s)"
  unfolding stripSeparators_def
proof (rule filter_cong)
  fix c assume "c \<in> set (digitGroups s)"
  then have "is_digit c \<or> is_space c" by (rule digitGroups_chars)
  then show "(\<not> is_separator c) = is_digit c"
    using digit_not_separator space_separator by blast
qed simp

lemma matchSpacedDigits_shape:
  "matchSpacedDigits s = Some m \<Longrightarrow>
   \<exists>pre post. s = pre @ m @ post \<and> 10 \<le> length (filter is_digit m) \<and>
      stripSeparators m = filter is_digit m"
proof (induction s)
  case Nil
  then show ?case by simp
next
  case (Cons c cs)
  show ?case
  proof (cases "10 \<le> length (filter is_digit (digitGroups (c # cs)))")
    case True
    with Cons.prems have m: "m = digitGroups (c # cs)" by (simp add: Let_def)
    obtain post where "c # cs = digitGroups (c # cs) @ post"
      using digitGroups_prefix by blast
    with m True have "c # cs = [] @ m @ post \<and> 10 \<le> length (filter is_digit m) \<and>
        stripSeparators m = filter is_digit m"
      by (simp add: strip_digitGroups del: digitGroups.simps)
    then show ?thesis by blast
  next
    case False
    with Cons.prems have "matchSpacedDigits cs = Some m" by (simp add: Let_def)
    then obtain pre post where "cs = pre @ m @ post \<and> 10 \<le> length (filter is_digit m) \<and>
        stripSeparators m = filter is_digit m"
      using Cons.IH by blast
    then have "c # cs = (c # pre) @ m @ post \<and> 10 \<le> length (filter is_digit m) \<and>
        stripSeparators m = filter is_digit m"
      by simp
    then show ?thesis by blast
  qed
qed

lemma long_run_found:
  "\<forall>c \<in> set ds. is_digit c \<Longrightarrow> 10 \<le> length ds \<Longrightarrow> matchDigits10 (a @ ds @ b) \<noteq> None"
proof (induction a)
  case Nil
  then obtain d ds' where ds: "ds = d # ds'" by (cases ds) auto
  from Nil have "takeWhile is_digit (ds @ b) = ds @ takeWhile is_digit b"
    by (simp add: takeWhile_append2)
  with Nil ds show ?case by (simp add: Let_def)
next
  case (Cons x a)
  then show ?case by (simp add: Let_def)
qed

lemma fallback_dead:
  "matchDigits10 (stripSeparators s) = None \<Longrightarrow> matchSpacedDigits s = None"
proof (rule ccontr)
  assume none: "matchDigits10 (stripSeparators s) = None" and "matchSpacedDigits s \<noteq> None"
  then obtain m where "matchSpacedDigits s = Some m" by auto
  then obtain pre post where s: "s = pre @ m @ post" and long: "10 \<le> length (filter is_digit m)"
    and strip: "stripSeparators m = filter is_digit m"
    using matchSpacedDigits_shape by blast
  have "stripSeparators s = stripSeparators pre @ filter is_digit m @ stripSeparators post"
    using s strip by (simp add: stripSeparators_def)
  moreover have "matchDigits10 (stripSeparators pre @ filter is_digit m @ stripSeparators post) \<noteq> None"
    by (rule long_run_found) (use long in auto)
  ultimately show False using none by simp
qed

lemma extractPhoneNumber_runs:
  "extractPhoneNumber text =
     map_option (sliceLast 10) (firstLongRun (stripSeparators (normalizeWords text)))"
proof (cases "matchDigits10 (stripSeparators (normalizeWords text))")
  case None
  then have "matchSpacedDigits (normalizeWords text) = None" by (rule fallback_dead)
  with None show ?thesis
    by (simp add: extractPhoneNumber_def Let_def matchDigits10_firstLongRun[symmetric])
next
  case (Some m)
  then show ?thesis
    by (simp add: extractPhoneNumber_def Let_def matchDigits10_firstLongRun[symmetric])
qed

lemma digitRuns_digits: "r \<in> set (digitRuns s) \<Longrightarrow> \<forall>c \<in> set r. is_digit c"
proof (induction s rule: digitRuns_induct)
  case 1
  then show ?case by simp
next
  case (2 d cs)
  then show ?case
    by (cases "is_digit d") (auto simp: digitRuns_Cons dest: set_takeWhileD)
qed

lemma firstLongRun_props:
  "firstLongRun s = Some r \<Longrightarrow> 10 \<le> length r \<and> (\<forall>c \<in> set r. is_digit c)"
  unfolding firstLongRun_def
  by (auto simp: find_Some_iff dest!: digitRuns_digits[OF nth_mem])

lemma firstLongRun_lower: "firstLongRun (toLowerCase s) = firstLongRun s"
  by (simp add: firstLongRun_def digitRuns_lower)

text \<open>The source against the words of the specification.\<close>

lemma extractPhoneNumber_spoken:
  "extractPhoneNumber text =
     map_option lastTen
       (firstLongRun (filter (\<lambda>c. c \<notin> set separatorUnits) (spokenForm text)))"
proof -
  have "stripSeparators (normalizeWords text)
      = toLowerCase (filter (\<lambda>c. c \<notin> set separatorUnits) (spokenForm text))"
    by (simp only: normalizeWords_spokenForm stripSeparators_lower)
       (simp only: stripSeparators_def separator_pred)
  then have "firstLongRun (stripSeparators (normalizeWords text))
      = firstLongRun (filter (\<lambda>c. c \<notin> set separatorUnits) (spokenForm text))"
    by (simp only: firstLongRun_lower)
  moreover have "sliceLast 10 = lastTen"
    by (rule ext) (rule lastTen_slice)
  ultimately show ?thesis
    by (simp only: extractPhoneNumber_runs)
qed

text \<open>
  Claim C8. For every text, \<^verbatim>\<open>extractPhoneNumber\<close> returns what the specification
  says: with each token of the text that is a number word, whatever its capitals,
  replaced by its numeral, and the separators then removed, the last ten digits of
  the first run of at least ten consecutive digits, and none when there is no such
  run. The right-hand side is written from the tables of digits, letters and
  separators: nothing of the regular expressions, of \<^verbatim>\<open>toLowerCase\<close> or of the
  second search of the source stands there. A result has exactly ten units, all of
  them digits. The two examples of the specification evaluate as stated.
\<close>

theorem extractPhoneNumber_first_run:
  "extractPhoneNumber text =
     map_option lastTen
       (firstLongRun (filter (\<lambda>c. c \<notin> set separatorUnits) (spokenForm text))) \<and>
   (extractPhoneNumber text = Some p \<longrightarrow> length p = 10 \<and> set p \<subseteq> set decimalDigits) \<and>
   extractPhoneNumber ''my number is nine six eight, six four five, six zero nine zero''
     = Some ''9686456090'' \<and>
   extractPhoneNumber ''call 555-123-4567 please'' = Some ''5551234567''"
proof -
  have runs: "extractPhoneNumber text =
     map_option lastTen
       (firstLongRun (filter (\<lambda>c. c \<notin> set separatorUnits) (spokenForm text)))"
    by (rule extractPhoneNumber_spoken)
  have ten: "extractPhoneNumber text = Some p \<longrightarrow> length p = 10 \<and> set p \<subseteq> set decimalDigits"
  proof
    assume "extractPhoneNumber text = Some p"
    with extractPhoneNumber_runs[of "text"]
    obtain r where r: "firstLongRun (stripSeparators (normalizeWords text)) = Some r"
      and p: "p = sliceLast 10 r"
      by (cases "firstLongRun (stripSeparators (normalizeWords text))") auto
    from firstLongRun_props[OF r] have "10 \<le> length r" and d: "\<forall>c \<in> set r. is_digit c"
      by simp_all
    then have "length p = 10 \<and> (\<forall>c \<in> set p. is_digit c)"
      using p by (auto simp: sliceLast_def dest: in_set_dropD)
    then show "length p = 10 \<and> set p \<subseteq> set decimalDigits"
      by (auto simp: digit_table)
  qed
  have ex1: "extractPhoneNumber ''my number is nine six eight, six four five, six zero nine zero''
     = Some ''9686456090''"
    by code_simp
  have ex2: "extractPhoneNumber ''call 555-123-4567 please'' = Some ''5551234567''"
    by code_simp
  from runs ten ex1 ex2 show ?thesis by blast
qed

theorem extractPhoneNumber_first_run_witness:
  "extractPhoneNumber ''Nine six eight six four five six zero nine zero'' = Some ''9686456090'' \<and>
   spokenForm ''Nine six eight six four five six zero nine zero'' = ''9 6 8 6 4 5 6 0 9 0'' \<and>
   length ''9686456090'' = 10 \<and>
   extractPhoneNumber ''phone 555123456'' = None \<and>
   spokenForm ''phone 555123456'' = ''phone 555123456'' \<and>
   extractPhoneNumber ''call +1 (555) 123-4567 or 9876543210'' = Some ''5551234567'' \<and>
   firstLongRun (filter (\<lambda>c. c \<notin> set separatorUnits)
       (spokenForm ''call +1 (555) 123-4567 or 9876543210'')) = Some ''15551234567'' \<and>
   extractPhoneNumber ''five five five, 1234'' = None"
proof -
  have a: "extractPhoneNumber ''Nine six eight six four five six zero nine zero''
     = Some ''9686456090''"
    by code_simp
  have b: "spokenForm ''Nine six eight six four five six zero nine zero'' = ''9 6 8 6 4 5 6 0 9 0''"
    by code_simp
  have c: "extractPhoneNumber ''phone 555123456'' = None"
    by code_simp
  have d: "spokenForm ''phone 555123456'' = ''phone 555123456''"
    by code_simp
  have e: "extractPhoneNumber ''call +1 (555) 123-4567 or 9876543210'' = Some ''5551234567''"
    by code_simp
  have f: "firstLongRun (filter (\<lambda>c. c \<notin> set separatorUnits)
       (spokenForm ''call +1 (555) 123-4567 or 9876543210'')) = Some ''15551234567''"
    by code_simp
  have g: "extractPhoneNumber ''five five five, 1234'' = None"
    by code_simp
  from extractPhoneNumber_first_run[of "''Nine six eight six four five six zero nine zero''"
      "''9686456090''"] a
  have "length ''9686456090'' = 10" by blast
  with a b c d e f g show ?thesis by blast
qed

subsection \<open>extractName\<close>

lemma phrases_patterns: "concat (map phrasesOf namePatterns) = introPhrases"
  by (simp add: namePatterns_def phrasesOf_def introPhrases_def apostrophe_def)

lemma matchLiteral_sound:
  "matchLiteral lit s = Some rest \<Longrightarrow> \<exists>ph. s = ph @ rest \<and> map foldCase ph = lit"
  by (auto simp: matchLiteral_def split: if_splits intro!: exI[of _ "take (length lit) s"])

lemma matchLiteral_complete:
  "map foldCase ph = lit \<Longrightarrow> matchLiteral lit (ph @ rest) = Some rest"
  by (auto simp: matchLiteral_def)

lemma letter_not_space: "is_letter c \<Longrightarrow> \<not> is_space c"
  by (auto simp: is_letter_def is_space_def)

lemma matchCapture_sound:
  "matchCapture s = Some c \<Longrightarrow>
   \<exists>ws post. s = ws @ c @ post \<and> ws \<noteq> [] \<and> (\<forall>x \<in> set ws. is_space x) \<and>
      c \<noteq> [] \<and> (\<forall>x \<in> set c. is_letter x) \<and> (post = [] \<or> \<not> is_letter (hd post))"
proof -
  assume m: "matchCapture s = Some c"
  let ?ws = "takeWhile is_space s"
  let ?rest = "dropWhile is_space s"
  let ?post = "dropWhile is_letter ?rest"
  from m have c: "c = takeWhile is_letter ?rest" and ws: "?ws \<noteq> []" and ne: "c \<noteq> []"
    by (auto simp: matchCapture_def Let_def split: if_splits)
  have "s = ?ws @ c @ ?post"
    by (simp add: c)
  moreover have "\<forall>x \<in> set ?ws. is_space x"
    by (auto dest: set_takeWhileD)
  moreover have "\<forall>x \<in> set c. is_letter x"
    by (auto simp: c dest: set_takeWhileD)
  moreover have "?post = [] \<or> \<not> is_letter (hd ?post)"
    by (metis hd_dropWhile)
  ultimately show ?thesis using ws ne by blast
qed

lemma matchCapture_complete:
  assumes "ws \<noteq> []" "\<forall>x \<in> set ws. is_space x" "c \<noteq> []" "\<forall>x \<in> set c. is_letter x"
  shows "matchCapture (ws @ c @ post) \<noteq> None"
proof -
  obtain x c' where c: "c = x # c'" using assms(3) by (cases c) auto
  with assms(4) have x: "is_letter x" by simp
  then have nsp: "\<not> is_space x" by (rule letter_not_space)
  from assms(2) have tw: "takeWhile is_space (ws @ c @ post) = ws"
    using nsp c by (simp add: takeWhile_append2)
  from assms(2) have dw: "dropWhile is_space (ws @ c @ post) = c @ post"
    using nsp c by (simp add: dropWhile_append2)
  have "takeWhile is_letter (c @ post) \<noteq> []"
    using x c by simp
  with tw dw assms(1) show ?thesis
    by (simp add: matchCapture_def Let_def)
qed

lemma matchAlternatives_sound:
  "matchAlternatives alts s = Some c \<Longrightarrow>
   \<exists>a \<in> set alts. \<exists>rest. matchLiteral a s = Some rest \<and> matchCapture rest = Some c"
  by (induction alts) (auto split: option.splits)

lemma matchAlternatives_complete:
  "a \<in> set alts \<Longrightarrow> matchLiteral a s = Some rest \<Longrightarrow> matchCapture rest \<noteq> None \<Longrightarrow>
   matchAlternatives alts s \<noteq> None"
  by (induction alts) (auto split: option.splits)

lemma matchAt_sound:
  "matchAt p s = Some c \<Longrightarrow>
   \<exists>ph ws post. s = ph @ ws @ c @ post \<and> map foldCase ph \<in> set (phrasesOf p) \<and>
      ws \<noteq> [] \<and> (\<forall>x \<in> set ws. is_space x) \<and>
      c \<noteq> [] \<and> (\<forall>x \<in> set c. is_letter x) \<and> (post = [] \<or> \<not> is_letter (hd post))"
proof -
  assume m: "matchAt p s = Some c"
  then obtain rest where l: "matchLiteral (fst p) s = Some rest"
    and alts: "matchAlternatives (snd p) rest = Some c"
    by (auto simp: matchAt_def split: option.splits)
  from l obtain ph1 where s: "s = ph1 @ rest" and f1: "map foldCase ph1 = fst p"
    using matchLiteral_sound by blast
  from alts obtain a rest' where a: "a \<in> set (snd p)"
    and la: "matchLiteral a rest = Some rest'" and cap: "matchCapture rest' = Some c"
    using matchAlternatives_sound by blast
  from la obtain ph2 where rest: "rest = ph2 @ rest'" and f2: "map foldCase ph2 = a"
    using matchLiteral_sound by blast
  from cap obtain ws post where rest': "rest' = ws @ c @ post" and
    props: "ws \<noteq> [] \<and> (\<forall>x \<in> set ws. is_space x) \<and> c \<noteq> [] \<and>
      (\<forall>x \<in> set c. is_letter x) \<and> (post = [] \<or> \<not> is_letter (hd post))"
    using matchCapture_sound by blast
  have "s = (ph1 @ ph2) @ ws @ c @ post"
    by (simp add: s rest rest')
  moreover have "map foldCase (ph1 @ ph2) \<in> set (phrasesOf p)"
    using a f1 f2 by (auto simp: phrasesOf_def)
  ultimately show ?thesis using props by blast
qed

lemma matchAt_complete:
  assumes "map foldCase ph \<in> set (phrasesOf p)"
    and "ws \<noteq> []" "\<forall>x \<in> set ws. is_space x" "c \<noteq> []" "\<forall>x \<in> set c. is_letter x"
  shows "matchAt p (ph @ ws @ c @ post) \<noteq> None"
proof -
  from assms(1) obtain a where a: "a \<in> set (snd p)" and ph: "map foldCase ph = fst p @ a"
    by (auto simp: phrasesOf_def)
  let ?n = "length (fst p)"
  let ?ph1 = "take ?n ph"
  let ?ph2 = "drop ?n ph"
  from ph have "map foldCase (?ph1 @ ?ph2) = fst p @ a" by simp
  then have f1: "map foldCase ?ph1 = fst p" and f2: "map foldCase ?ph2 = a"
    using ph by (auto simp: take_map[symmetric] drop_map[symmetric])
  have "ph @ ws @ c @ post = ?ph1 @ (?ph2 @ ws @ c @ post)" by simp
  then have l: "matchLiteral (fst p) (ph @ ws @ c @ post) = Some (?ph2 @ ws @ c @ post)"
    using matchLiteral_complete[OF f1] by metis
  have la: "matchLiteral a (?ph2 @ ws @ c @ post) = Some (ws @ c @ post)"
    by (rule matchLiteral_complete[OF f2])
  have "matchCapture (ws @ c @ post) \<noteq> None"
    by (rule matchCapture_complete[OF assms(2-5)])
  with a la have "matchAlternatives (snd p) (?ph2 @ ws @ c @ post) \<noteq> None"
    by (rule matchAlternatives_complete)
  with l show ?thesis by (simp add: matchAt_def)
qed

lemma matchPattern_sound:
  "matchPattern p s = Some c \<Longrightarrow>
   \<exists>pre ph ws post. s = pre @ ph @ ws @ c @ post \<and> map foldCase ph \<in> set (phrasesOf p) \<and>
      ws \<noteq> [] \<and> (\<forall>x \<in> set ws. is_space x) \<and>
      c \<noteq> [] \<and> (\<forall>x \<in> set c. is_letter x) \<and> (post = [] \<or> \<not> is_letter (hd post))"
proof (induction s)
  case Nil
  then have "matchAt p [] = Some c" by simp
  from matchAt_sound[OF this] show ?case by (metis append_Nil)
next
  case (Cons x xs)
  show ?case
  proof (cases "matchAt p (x # xs)")
    case (Some c')
    with Cons.prems have "matchAt p (x # xs) = Some c" by simp
    from matchAt_sound[OF this] show ?thesis by (metis append_Nil)
  next
    case None
    with Cons.prems have "matchPattern p xs = Some c" by simp
    from Cons.IH[OF this] obtain pre ph ws post where
      "xs = pre @ ph @ ws @ c @ post \<and> map foldCase ph \<in> set (phrasesOf p) \<and>
       ws \<noteq> [] \<and> (\<forall>x \<in> set ws. is_space x) \<and>
       c \<noteq> [] \<and> (\<forall>x \<in> set c. is_letter x) \<and> (post = [] \<or> \<not> is_letter (hd post))"
      by blast
    then have "x # xs = (x # pre) @ ph @ ws @ c @ post \<and> map foldCase ph \<in> set (phrasesOf p) \<and>
       ws \<noteq> [] \<and> (\<forall>x \<in> set ws. is_space x) \<and>
       c \<noteq> [] \<and> (\<forall>x \<in> set c. is_letter x) \<and> (post = [] \<or> \<not> is_letter (hd post))"
      by simp
    then show ?thesis by blast
  qed
qed

lemma matchPattern_complete:
  assumes "map foldCase ph \<in> set (phrasesOf p)"
    and "ws \<noteq> []" "\<forall>x \<in> set ws. is_space x" "c \<noteq> []" "\<forall>x \<in> set c. is_letter x"
  shows "matchPattern p (pre @ ph @ ws @ c @ post) \<noteq> None"
proof (induction pre)
  case Nil
  have m: "matchAt p (ph @ ws @ c @ post) \<noteq> None"
    by (rule matchAt_complete[OF assms])
  show ?case
  proof (cases "ph @ ws @ c @ post")
    case Nil
    with m show ?thesis by simp
  next
    case (Cons x xs)
    with m show ?thesis by (auto split: option.splits)
  qed
next
  case (Cons x pre)
  then show ?case by (auto split: option.splits)
qed

lemma firstAccepted_sound:
  "firstAccepted ps s = Some n \<Longrightarrow>
   \<exists>p \<in> set ps. \<exists>c. matchPattern p s = Some c \<and> toLowerCase c \<notin> set falsePositives \<and>
      n = capitalize c"
  by (induction ps) (auto split: option.splits if_splits)

lemma firstAccepted_none:
  "firstAccepted ps s = None \<Longrightarrow>
   \<forall>p \<in> set ps. \<forall>c. matchPattern p s = Some c \<longrightarrow> toLowerCase c \<in> set falsePositives"
  by (induction ps) (auto split: option.splits if_splits)

lemma phrase_of_pattern:
  "q \<in> set introPhrases \<longleftrightarrow> (\<exists>p \<in> set namePatterns. q \<in> set (phrasesOf p))"
  unfolding phrases_patterns[symmetric] by auto

lemma matchPattern_introduces:
  "p \<in> set namePatterns \<Longrightarrow> matchPattern p s = Some c \<Longrightarrow> introduces s c"
  unfolding introduces_def
  using matchPattern_sound[of p s c] phrase_of_pattern by blast

lemma introduces_matchPattern:
  "introduces s c \<Longrightarrow> \<exists>p \<in> set namePatterns. matchPattern p s \<noteq> None"
proof -
  assume "introduces s c"
  then obtain pre ph ws post where s: "s = pre @ ph @ ws @ c @ post"
    and q: "map foldCase ph \<in> set introPhrases"
    and props: "ws \<noteq> []" "\<forall>x \<in> set ws. is_space x" "c \<noteq> []" "\<forall>x \<in> set c. is_letter x"
    unfolding introduces_def by blast
  from q obtain p where p: "p \<in> set namePatterns" and "map foldCase ph \<in> set (phrasesOf p)"
    using phrase_of_pattern by blast
  then have "matchPattern p (pre @ ph @ ws @ c @ post) \<noteq> None"
    using props by (intro matchPattern_complete)
  with p s show ?thesis by blast
qed

text \<open>
  Claim C9. When \<^verbatim>\<open>extractName\<close> returns a name, the text introduces some
  letters \<open>c\<close> (one of the phrases in any case, white space, then \<open>c\<close> up to the
  next unit that is not a letter), \<open>c\<close> in lower case is not on the denylist, and the
  name is \<open>c\<close> with its first letter in upper case and the rest in lower case. When it
  returns none, every pattern that matches the text has its (leftmost) capture on the
  denylist. No pattern matches a text exactly when the text introduces nothing. The
  two examples of the specification evaluate as stated.
\<close>

theorem extractName_introduction:
  "(extractName s = Some n \<longrightarrow>
      (\<exists>c. introduces s c \<and> toLowerCase c \<notin> set falsePositives \<and> n = capitalize c)) \<and>
   (extractName s = None \<longrightarrow>
      (\<forall>p \<in> set namePatterns. \<forall>c. matchPattern p s = Some c \<longrightarrow>
         toLowerCase c \<in> set falsePositives)) \<and>
   ((\<forall>p \<in> set namePatterns. matchPattern p s = None) \<longleftrightarrow> \<not> (\<exists>c. introduces s c)) \<and>
   extractName ''Hi, this is John, I need an appointment'' = Some ''John'' \<and>
   extractName ''I'm calling about a refund'' = None"
proof -
  have a: "extractName s = Some n \<longrightarrow>
      (\<exists>c. introduces s c \<and> toLowerCase c \<notin> set falsePositives \<and> n = capitalize c)"
    unfolding extractName_def
    using firstAccepted_sound[of namePatterns s n] matchPattern_introduces by blast
  have b: "extractName s = None \<longrightarrow>
      (\<forall>p \<in> set namePatterns. \<forall>c. matchPattern p s = Some c \<longrightarrow>
         toLowerCase c \<in> set falsePositives)"
    unfolding extractName_def using firstAccepted_none[of namePatterns s] by blast
  have c: "(\<forall>p \<in> set namePatterns. matchPattern p s = None) \<longleftrightarrow> \<not> (\<exists>c. introduces s c)"
    using matchPattern_introduces introduces_matchPattern
    by (metis option.exhaust)
  have ex1: "extractName ''Hi, this is John, I need an appointment'' = Some ''John''"
    by code_simp
  have ex2: "extractName ''I'm calling about a refund'' = None"
    by code_simp
  from a b c ex1 ex2 show ?thesis by blast
qed

theorem extractName_introduction_witness:
  "extractName ''my NAME is   bOB the builder'' = Some ''Bob'' \<and>
   (\<exists>c. introduces ''my NAME is   bOB the builder'' c \<and> capitalize c = ''Bob'') \<and>
   extractName ''I'm calling. I'm John'' = None \<and>
   matchPattern (''i'', [[apostrophe, CHR ''m''], '' am'']) ''I'm calling. I'm John'' = Some ''calling'' \<and>
   toLowerCase ''calling'' \<in> set falsePositives"
proof -
  have a: "extractName ''my NAME is   bOB the builder'' = Some ''Bob''"
    by code_simp
  have b: "extractName ''I'm calling. I'm John'' = None"
    by code_simp
  have c: "matchPattern (''i'', [[apostrophe, CHR ''m''], '' am'']) ''I'm calling. I'm John'' = Some ''calling''"
    by code_simp
  have p: "(''i'', [[apostrophe, CHR ''m''], '' am'']) \<in> set namePatterns"
    by (simp add: namePatterns_def)
  from extractName_introduction[of "''my NAME is   bOB the builder''" "''Bob''"] a
  have d: "\<exists>c. introduces ''my NAME is   bOB the builder'' c \<and> capitalize c = ''Bob''"
    by metis
  from extractName_introduction[of "''I'm calling. I'm John''" "[]"] b c p
  have e: "toLowerCase ''calling'' \<in> set falsePositives"
    by blast
  from a b c d e show ?thesis by blast
qed

end
